theory Spec2Isabelle
  imports Main "HOL-Library.Monad_Syntax"
begin

section \<open>The recency list (package internal)\<close>

text \<open>
  The Go list is a ring of heap-allocated \<open>Entry\<close> cells around a sentinel \<open>root\<close>
  that is embedded in the \<open>LRUList\<close> struct. A pointer \<open>*Entry\<close> is modelled as a
  \<open>ref\<close>: \<open>Null\<close> is Go's \<open>nil\<close>, \<open>Root\<close> is \<open>&l.root\<close>, and \<open>Ptr a\<close> is the
  address of the cell allocated as number \<open>a\<close>. Every function that dereferences a
  pointer returns an \<open>option\<close>: \<open>None\<close> is the run-time panic of a nil dereference
  (or of an index out of range).

  A cache owns exactly one list, so the field \<open>list *LRUList\<close> of an entry is either
  \<open>nil\<close> or that list: it is the boolean \<open>e_list\<close>. Times (\<open>time.Time\<close>) are integers
  on one time line, \<open>time.Time{}\<close> being 0. Go's \<open>int\<close> is modelled by \<open>int\<close>: the
  lengths and capacities that occur stay far inside the machine range.
\<close>

datatype ref = Null | Root | Ptr nat

type_synonym time = int

record ('k, 'v) Entry =
  e_next :: ref
  e_prev :: ref
  e_list :: bool
  Key :: 'k
  Value :: 'v
  ExpiresAt :: time
  Bucket :: nat

text \<open>
  Of the sentinel only \<open>next\<close> and \<open>prev\<close> are ever used (so says the source); they
  are the fields \<open>root_next\<close> and \<open>root_prev\<close>. \<open>cells\<close> is the part of the Go heap
  that holds the entries this list has allocated, \<open>fresh\<close> the next unused address.
\<close>

record ('k, 'v) LRUList =
  root_next :: ref
  root_prev :: ref
  len :: int
  cells :: "nat \<rightharpoonup> ('k, 'v) Entry"
  fresh :: nat

subsection \<open>Field access through a pointer\<close>

definition get_cell :: "('k, 'v) LRUList \<Rightarrow> ref \<Rightarrow> ('k, 'v) Entry option" where
  "get_cell l r = (case r of Ptr a \<Rightarrow> cells l a | _ \<Rightarrow> None)"

definition upd_cell ::
  "ref \<Rightarrow> (('k, 'v) Entry \<Rightarrow> ('k, 'v) Entry) \<Rightarrow> ('k, 'v) LRUList \<Rightarrow> ('k, 'v) LRUList option" where
  "upd_cell r f l =
     (case r of
        Ptr a \<Rightarrow> (case cells l a of
                    None \<Rightarrow> None
                  | Some e \<Rightarrow> Some (l\<lparr>cells := (cells l)(a \<mapsto> f e)\<rparr>))
      | _ \<Rightarrow> None)"

definition get_next :: "('k, 'v) LRUList \<Rightarrow> ref \<Rightarrow> ref option" where
  "get_next l r =
     (case r of Null \<Rightarrow> None | Root \<Rightarrow> Some (root_next l) | Ptr a \<Rightarrow> map_option e_next (cells l a))"

definition get_prev :: "('k, 'v) LRUList \<Rightarrow> ref \<Rightarrow> ref option" where
  "get_prev l r =
     (case r of Null \<Rightarrow> None | Root \<Rightarrow> Some (root_prev l) | Ptr a \<Rightarrow> map_option e_prev (cells l a))"

definition set_next :: "ref \<Rightarrow> ref \<Rightarrow> ('k, 'v) LRUList \<Rightarrow> ('k, 'v) LRUList option" where
  "set_next r v l =
     (case r of
        Null \<Rightarrow> None
      | Root \<Rightarrow> Some (l\<lparr>root_next := v\<rparr>)
      | Ptr a \<Rightarrow> upd_cell r (\<lambda>e. e\<lparr>e_next := v\<rparr>) l)"

definition set_prev :: "ref \<Rightarrow> ref \<Rightarrow> ('k, 'v) LRUList \<Rightarrow> ('k, 'v) LRUList option" where
  "set_prev r v l =
     (case r of
        Null \<Rightarrow> None
      | Root \<Rightarrow> Some (l\<lparr>root_prev := v\<rparr>)
      | Ptr a \<Rightarrow> upd_cell r (\<lambda>e. e\<lparr>e_prev := v\<rparr>) l)"

text \<open>
  The remaining fields are only ever read or written on allocated entries, never on
  the sentinel; the model is stuck (\<open>None\<close>) on any other pointer.
\<close>

definition get_list :: "('k, 'v) LRUList \<Rightarrow> ref \<Rightarrow> bool option" where
  "get_list l r = map_option e_list (get_cell l r)"

definition set_list :: "ref \<Rightarrow> bool \<Rightarrow> ('k, 'v) LRUList \<Rightarrow> ('k, 'v) LRUList option" where
  "set_list r v l = upd_cell r (\<lambda>e. e\<lparr>e_list := v\<rparr>) l"

definition get_Key :: "('k, 'v) LRUList \<Rightarrow> ref \<Rightarrow> 'k option" where
  "get_Key l r = map_option Key (get_cell l r)"

definition get_Value :: "('k, 'v) LRUList \<Rightarrow> ref \<Rightarrow> 'v option" where
  "get_Value l r = map_option Value (get_cell l r)"

definition set_Value :: "ref \<Rightarrow> 'v \<Rightarrow> ('k, 'v) LRUList \<Rightarrow> ('k, 'v) LRUList option" where
  "set_Value r v l = upd_cell r (\<lambda>e. e\<lparr>Value := v\<rparr>) l"

definition get_ExpiresAt :: "('k, 'v) LRUList \<Rightarrow> ref \<Rightarrow> time option" where
  "get_ExpiresAt l r = map_option ExpiresAt (get_cell l r)"

definition set_ExpiresAt :: "ref \<Rightarrow> time \<Rightarrow> ('k, 'v) LRUList \<Rightarrow> ('k, 'v) LRUList option" where
  "set_ExpiresAt r v l = upd_cell r (\<lambda>e. e\<lparr>ExpiresAt := v\<rparr>) l"

definition get_Bucket :: "('k, 'v) LRUList \<Rightarrow> ref \<Rightarrow> nat option" where
  "get_Bucket l r = map_option Bucket (get_cell l r)"

definition set_Bucket :: "ref \<Rightarrow> nat \<Rightarrow> ('k, 'v) LRUList \<Rightarrow> ('k, 'v) LRUList option" where
  "set_Bucket r v l = upd_cell r (\<lambda>e. e\<lparr>Bucket := v\<rparr>) l"

subsection \<open>The list operations\<close>

text \<open>\<open>PrevEntry\<close>: the previous element, or nil at the sentinel.\<close>

definition PrevEntry :: "('k, 'v) LRUList \<Rightarrow> ref \<Rightarrow> ref option" where
  "PrevEntry l e = do {
     p \<leftarrow> get_prev l e;
     li \<leftarrow> get_list l e;
     Some (if li \<and> p \<noteq> Root then p else Null)
   }"

definition list_Init :: "('k, 'v) LRUList \<Rightarrow> ('k, 'v) LRUList" where
  "list_Init l = l\<lparr>root_next := Root, root_prev := Root, len := 0\<rparr>"

definition lazyInit :: "('k, 'v) LRUList \<Rightarrow> ('k, 'v) LRUList" where
  "lazyInit l = (if root_next l = Null then list_Init l else l)"

text \<open>\<open>NewList\<close>: \<open>new(LRUList).Init()\<close>, the zero value of the struct, initialised.\<close>

definition NewList :: "('k, 'v) LRUList" where
  "NewList = list_Init \<lparr>root_next = Null, root_prev = Null, len = 0, cells = Map.empty, fresh = 0\<rparr>"

definition list_Len :: "('k, 'v) LRUList \<Rightarrow> int" where
  "list_Len l = len l"

definition Back :: "('k, 'v) LRUList \<Rightarrow> ref" where
  "Back l = (if len l = 0 then Null else root_prev l)"

text \<open>\<open>insert\<close>: link \<open>e\<close> after \<open>at\<close>, statement by statement.\<close>

definition list_insert ::
  "ref \<Rightarrow> ref \<Rightarrow> ('k, 'v) LRUList \<Rightarrow> (ref \<times> ('k, 'v) LRUList) option" where
  "list_insert e at l = do {
     l \<leftarrow> set_prev e at l;
     n \<leftarrow> get_next l at;
     l \<leftarrow> set_next e n l;
     p \<leftarrow> get_prev l e;
     l \<leftarrow> set_next p e l;
     n \<leftarrow> get_next l e;
     l \<leftarrow> set_prev n e l;
     l \<leftarrow> set_list e True l;
     Some (e, l\<lparr>len := len l + 1\<rparr>)
   }"

text \<open>
  \<open>insertValue\<close> allocates \<open>&Entry{Key: k, Value: v, ExpiresAt: expiresAt}\<close> (the
  other fields zero) at the next unused address and inserts it.
\<close>

definition insertValue ::
  "'k \<Rightarrow> 'v \<Rightarrow> time \<Rightarrow> ref \<Rightarrow> ('k, 'v) LRUList \<Rightarrow> (ref \<times> ('k, 'v) LRUList) option" where
  "insertValue k v expiresAt at l =
     (let a = fresh l;
          e = \<lparr>e_next = Null, e_prev = Null, e_list = False,
               Key = k, Value = v, ExpiresAt = expiresAt, Bucket = 0\<rparr>
      in list_insert (Ptr a) at (l\<lparr>cells := (cells l)(a \<mapsto> e), fresh := Suc a\<rparr>))"

definition list_Remove :: "ref \<Rightarrow> ('k, 'v) LRUList \<Rightarrow> ('v \<times> ('k, 'v) LRUList) option" where
  "list_Remove e l = do {
     p \<leftarrow> get_prev l e;
     n \<leftarrow> get_next l e;
     l \<leftarrow> set_next p n l;
     n \<leftarrow> get_next l e;
     p \<leftarrow> get_prev l e;
     l \<leftarrow> set_prev n p l;
     l \<leftarrow> set_next e Null l;
     l \<leftarrow> set_prev e Null l;
     l \<leftarrow> set_list e False l;
     let l = l\<lparr>len := len l - 1\<rparr>;
     v \<leftarrow> get_Value l e;
     Some (v, l)
   }"

definition list_move :: "ref \<Rightarrow> ref \<Rightarrow> ('k, 'v) LRUList \<Rightarrow> ('k, 'v) LRUList option" where
  "list_move e at l =
     (if e = at then Some l
      else do {
        p \<leftarrow> get_prev l e;
        n \<leftarrow> get_next l e;
        l \<leftarrow> set_next p n l;
        n \<leftarrow> get_next l e;
        p \<leftarrow> get_prev l e;
        l \<leftarrow> set_prev n p l;
        l \<leftarrow> set_prev e at l;
        n \<leftarrow> get_next l at;
        l \<leftarrow> set_next e n l;
        p \<leftarrow> get_prev l e;
        l \<leftarrow> set_next p e l;
        n \<leftarrow> get_next l e;
        l \<leftarrow> set_prev n e l;
        Some l
      })"

definition PushToFront :: "'k \<Rightarrow> 'v \<Rightarrow> ('k, 'v) LRUList \<Rightarrow> (ref \<times> ('k, 'v) LRUList) option" where
  "PushToFront k v l = insertValue k v 0 Root (lazyInit l)"

definition PushToFrontExpirable ::
  "'k \<Rightarrow> 'v \<Rightarrow> time \<Rightarrow> ('k, 'v) LRUList \<Rightarrow> (ref \<times> ('k, 'v) LRUList) option" where
  "PushToFrontExpirable k v expiresAt l = insertValue k v expiresAt Root (lazyInit l)"

definition MoveToFront :: "ref \<Rightarrow> ('k, 'v) LRUList \<Rightarrow> ('k, 'v) LRUList option" where
  "MoveToFront e l = do {
     li \<leftarrow> get_list l e;
     if \<not> li \<or> root_next l = e then Some l else list_move e Root l
   }"

section \<open>The basic LRU cache (package basic\_lru)\<close>

text \<open>
  \<open>entries\<close> is the Go map from keys to entry pointers. The eviction callback is an
  arbitrary Go function or nil; it is modelled as an optional function that transforms
  the state \<open>'w\<close> of everything outside the cache (it does not call back into the
  cache it is registered with). Every operation that can invoke the callback threads
  that outside state. A Go result \<open>(value, ok)\<close> is an \<open>option\<close>: \<open>Some v\<close> is
  \<open>(v, true)\<close> and \<open>None\<close> is \<open>(zero value, false)\<close>.
\<close>

datatype error = InvalidSize int

record ('k, 'v, 'w) LRU =
  size_lru :: int
  evictList :: "('k, 'v) LRUList"
  entries :: "'k \<rightharpoonup> ref"
  onEvict :: "('k \<Rightarrow> 'v \<Rightarrow> 'w \<Rightarrow> 'w) option"

definition NewLRU ::
  "int \<Rightarrow> ('k \<Rightarrow> 'v \<Rightarrow> 'w \<Rightarrow> 'w) option \<Rightarrow> error + ('k, 'v, 'w) LRU" where
  "NewLRU sz cb =
     (if sz \<le> 0 then Inl (InvalidSize sz)
      else Inr \<lparr>size_lru = sz, evictList = NewList, entries = Map.empty, onEvict = cb\<rparr>)"

definition removeEntry ::
  "ref \<Rightarrow> ('k, 'v, 'w) LRU \<Rightarrow> 'w \<Rightarrow> (('k, 'v, 'w) LRU \<times> 'w) option" where
  "removeEntry entry l w = do {
     (_, el) \<leftarrow> list_Remove entry (evictList l);
     k \<leftarrow> get_Key el entry;
     let l = l\<lparr>evictList := el, entries := (entries l)(k := None)\<rparr>;
     case onEvict l of
       None \<Rightarrow> Some (l, w)
     | Some f \<Rightarrow> do {
         k \<leftarrow> get_Key (evictList l) entry;
         v \<leftarrow> get_Value (evictList l) entry;
         Some (l, f k v w)
       }
   }"

definition removeOldest ::
  "('k, 'v, 'w) LRU \<Rightarrow> 'w \<Rightarrow> (('k, 'v, 'w) LRU \<times> 'w) option" where
  "removeOldest l w =
     (let entry = Back (evictList l)
      in if entry \<noteq> Null then removeEntry entry l w else Some (l, w))"

definition Add ::
  "'k \<Rightarrow> 'v \<Rightarrow> ('k, 'v, 'w) LRU \<Rightarrow> 'w \<Rightarrow> (bool \<times> ('k, 'v, 'w) LRU \<times> 'w) option" where
  "Add key val l w =
     (case entries l key of
        Some entry \<Rightarrow> do {
          el \<leftarrow> MoveToFront entry (evictList l);
          el \<leftarrow> set_Value entry val el;
          Some (False, l\<lparr>evictList := el\<rparr>, w)
        }
      | None \<Rightarrow> do {
          (entry, el) \<leftarrow> PushToFront key val (evictList l);
          let l = l\<lparr>evictList := el, entries := (entries l)(key \<mapsto> entry)\<rparr>;
          let evict = (list_Len (evictList l) > size_lru l);
          if evict then do {
            (l, w) \<leftarrow> removeOldest l w;
            Some (evict, l, w)
          }
          else Some (evict, l, w)
        })"

definition Get :: "'k \<Rightarrow> ('k, 'v, 'w) LRU \<Rightarrow> ('v option \<times> ('k, 'v, 'w) LRU) option" where
  "Get key l =
     (case entries l key of
        Some entry \<Rightarrow> do {
          el \<leftarrow> MoveToFront entry (evictList l);
          v \<leftarrow> get_Value el entry;
          Some (Some v, l\<lparr>evictList := el\<rparr>)
        }
      | None \<Rightarrow> Some (None, l))"

definition Contains :: "'k \<Rightarrow> ('k, 'v, 'w) LRU \<Rightarrow> bool" where
  "Contains key l = (case entries l key of Some _ \<Rightarrow> True | None \<Rightarrow> False)"

definition Peek :: "'k \<Rightarrow> ('k, 'v, 'w) LRU \<Rightarrow> 'v option option" where
  "Peek key l =
     (case entries l key of
        Some entry \<Rightarrow> do { v \<leftarrow> get_Value (evictList l) entry; Some (Some v) }
      | None \<Rightarrow> Some None)"

definition Remove ::
  "'k \<Rightarrow> ('k, 'v, 'w) LRU \<Rightarrow> 'w \<Rightarrow> (bool \<times> ('k, 'v, 'w) LRU \<times> 'w) option" where
  "Remove key l w =
     (case entries l key of
        Some entry \<Rightarrow> do { (l, w) \<leftarrow> removeEntry entry l w; Some (True, l, w) }
      | None \<Rightarrow> Some (False, l, w))"

definition RemoveOldest ::
  "('k, 'v, 'w) LRU \<Rightarrow> 'w \<Rightarrow> (('k \<times> 'v) option \<times> ('k, 'v, 'w) LRU \<times> 'w) option" where
  "RemoveOldest l w =
     (let entry = Back (evictList l)
      in if entry \<noteq> Null then do {
           (l, w) \<leftarrow> removeEntry entry l w;
           k \<leftarrow> get_Key (evictList l) entry;
           v \<leftarrow> get_Value (evictList l) entry;
           Some (Some (k, v), l, w)
         }
         else Some (None, l, w))"

definition GetOldest :: "('k, 'v, 'w) LRU \<Rightarrow> ('k \<times> 'v) option option" where
  "GetOldest l =
     (let entry = Back (evictList l)
      in if entry \<noteq> Null then do {
           k \<leftarrow> get_Key (evictList l) entry;
           v \<leftarrow> get_Value (evictList l) entry;
           Some (Some (k, v))
         }
         else Some None)"

text \<open>
  \<open>Keys\<close> and \<open>Values\<close> fill a slice made with \<open>Len()\<close> zero-valued slots, walking
  from the back with \<open>PrevEntry\<close>. A slot is an \<open>option\<close>: \<open>None\<close> is a slot that still
  holds the zero value. Writing the slot \<open>i\<close> beyond the slice panics, so the walk takes at
  most \<open>Len()\<close> steps.
\<close>

function keys_loop ::
  "('k, 'v) LRUList \<Rightarrow> ref \<Rightarrow> nat \<Rightarrow> 'k option list \<Rightarrow> 'k option list option" where
  "keys_loop l entry i keys =
     (if entry = Null then Some keys
      else if i \<ge> length keys then None
      else do {
        k \<leftarrow> get_Key l entry;
        p \<leftarrow> PrevEntry l entry;
        keys_loop l p (Suc i) (keys[i := Some k])
      })"
  by pat_completeness auto
termination
  by (relation "measure (\<lambda>(l, entry, i, keys). length keys - i)") auto

function values_loop ::
  "('k, 'v) LRUList \<Rightarrow> ref \<Rightarrow> nat \<Rightarrow> 'v option list \<Rightarrow> 'v option list option" where
  "values_loop l entry i vals =
     (if entry = Null then Some vals
      else if i \<ge> length vals then None
      else do {
        v \<leftarrow> get_Value l entry;
        p \<leftarrow> PrevEntry l entry;
        values_loop l p (Suc i) (vals[i := Some v])
      })"
  by pat_completeness auto
termination
  by (relation "measure (\<lambda>(l, entry, i, vals). length vals - i)") auto

definition Keys :: "('k, 'v, 'w) LRU \<Rightarrow> 'k option list option" where
  "Keys l =
     (if list_Len (evictList l) < 0 then None
      else keys_loop (evictList l) (Back (evictList l)) 0
             (replicate (nat (list_Len (evictList l))) None))"

definition Values :: "('k, 'v, 'w) LRU \<Rightarrow> 'v option list option" where
  "Values l =
     (if list_Len (evictList l) < 0 then None
      else values_loop (evictList l) (Back (evictList l)) 0
             (replicate (nat (list_Len (evictList l))) None))"

definition Len :: "('k, 'v, 'w) LRU \<Rightarrow> int" where
  "Len l = list_Len (evictList l)"

definition Cap :: "('k, 'v, 'w) LRU \<Rightarrow> int" where
  "Cap l = size_lru l"

text \<open>
  \<open>Purge\<close> ranges over the Go map, whose iteration order the run time chooses. The
  order is the extra argument \<open>ks\<close>: the keys in the order in which the \<open>range\<close>
  yields them. Each iteration deletes only its own key, so a \<open>range\<close> over the map \<open>m\<close>
  yields every key of \<open>m\<close> exactly once: \<open>range_order m ks\<close>.
\<close>

definition range_order :: "('k \<rightharpoonup> 'a) \<Rightarrow> 'k list \<Rightarrow> bool" where
  "range_order m ks \<longleftrightarrow> distinct ks \<and> set ks = dom m"

fun purge_loop ::
  "'k list \<Rightarrow> ('k, 'v, 'w) LRU \<Rightarrow> 'w \<Rightarrow> (('k, 'v, 'w) LRU \<times> 'w) option" where
  "purge_loop [] l w = Some (l, w)"
| "purge_loop (k # ks) l w =
     (case entries l k of
        None \<Rightarrow> purge_loop ks l w
      | Some v \<Rightarrow> do {
          w \<leftarrow> (case onEvict l of
                  None \<Rightarrow> Some w
                | Some f \<Rightarrow> do { x \<leftarrow> get_Value (evictList l) v; Some (f k x w) });
          purge_loop ks (l\<lparr>entries := (entries l)(k := None)\<rparr>) w
        })"

definition Purge ::
  "'k list \<Rightarrow> ('k, 'v, 'w) LRU \<Rightarrow> 'w \<Rightarrow> (('k, 'v, 'w) LRU \<times> 'w) option" where
  "Purge ks l w = do {
     (l, w) \<leftarrow> purge_loop ks l w;
     Some (l\<lparr>evictList := list_Init (evictList l)\<rparr>, w)
   }"

function resize_loop ::
  "int \<Rightarrow> int \<Rightarrow> ('k, 'v, 'w) LRU \<Rightarrow> 'w \<Rightarrow> (('k, 'v, 'w) LRU \<times> 'w) option" where
  "resize_loop i diff l w =
     (if i < diff then do {
        (l, w) \<leftarrow> removeOldest l w;
        resize_loop (i + 1) diff l w
      }
      else Some (l, w))"
  by pat_completeness auto
termination
  by (relation "measure (\<lambda>(i, diff, l, w). nat (diff - i))") auto

definition Resize ::
  "int \<Rightarrow> ('k, 'v, 'w) LRU \<Rightarrow> 'w \<Rightarrow> (int \<times> ('k, 'v, 'w) LRU \<times> 'w) option" where
  "Resize sz l w =
     (let diff = Len l - sz;
          diff = (if diff < 0 then 0 else diff)
      in do {
        (l, w) \<leftarrow> resize_loop 0 diff l w;
        Some (diff, l\<lparr>size_lru := sz\<rparr>, w)
      })"

section \<open>The expirable LRU cache (package expirable\_lru)\<close>

text \<open>
  The clock is an argument: an operation that calls \<open>time.Now()\<close> takes the time
  \<open>now\<close> at which it runs. \<open>nextBucket\<close> and \<open>Entry.Bucket\<close> are \<open>uint8\<close>: natural
  numbers, with the wrap-around modulo 256 written out where the source adds. The
  mutex is not modelled: an operation is one atomic step.
\<close>

definition noEvictionTTL :: int where
  "noEvictionTTL = 3600000000000 * 24 * 365 * 100"

definition numBuckets :: nat where
  "numBuckets = 100"

record 'k bucket =
  b_entries :: "'k \<rightharpoonup> ref"
  newestEntry :: time

record ('k, 'v, 'w) ExpLRU =
  x_size :: int
  x_evictList :: "('k, 'v) LRUList"
  x_entries :: "'k \<rightharpoonup> ref"
  x_onEvict :: "('k \<Rightarrow> 'v \<Rightarrow> 'w \<Rightarrow> 'w) option"
  x_ttl :: int
  x_buckets :: "'k bucket list"
  x_nextBucket :: nat

text \<open>
  \<open>NewLRU\<close> of the expirable package has no error result. (It also starts the
  sweeping goroutine when the TTL is not \<open>noEvictionTTL\<close>; the sweep is
  \<open>deleteExpired\<close> below.)
\<close>

definition x_NewLRU ::
  "int \<Rightarrow> ('k \<Rightarrow> 'v \<Rightarrow> 'w \<Rightarrow> 'w) option \<Rightarrow> int \<Rightarrow> ('k, 'v, 'w) ExpLRU" where
  "x_NewLRU sz cb ttl =
     (let sz = (if sz < 0 then 0 else sz);
          ttl = (if ttl \<le> 0 then noEvictionTTL else ttl)
      in \<lparr>x_size = sz, x_evictList = NewList, x_entries = Map.empty, x_onEvict = cb,
          x_ttl = ttl,
          x_buckets = replicate numBuckets \<lparr>b_entries = Map.empty, newestEntry = 0\<rparr>,
          x_nextBucket = 0\<rparr>)"

definition addToBucket :: "ref \<Rightarrow> ('k, 'v, 'w) ExpLRU \<Rightarrow> ('k, 'v, 'w) ExpLRU option" where
  "addToBucket entry l = do {
     let bucketIndex = x_nextBucket l mod numBuckets;
     el \<leftarrow> set_Bucket entry bucketIndex (x_evictList l);
     k \<leftarrow> get_Key el entry;
     exp \<leftarrow> get_ExpiresAt el entry;
     if bucketIndex < length (x_buckets l) then
       (let b = x_buckets l ! bucketIndex;
            b = b\<lparr>b_entries := (b_entries b)(k \<mapsto> entry)\<rparr>;
            b = (if newestEntry b < exp then b\<lparr>newestEntry := exp\<rparr> else b)
        in Some (l\<lparr>x_evictList := el, x_buckets := (x_buckets l)[bucketIndex := b]\<rparr>))
     else None
   }"

definition removeFromBucket :: "ref \<Rightarrow> ('k, 'v, 'w) ExpLRU \<Rightarrow> ('k, 'v, 'w) ExpLRU option" where
  "removeFromBucket entry l = do {
     i \<leftarrow> get_Bucket (x_evictList l) entry;
     k \<leftarrow> get_Key (x_evictList l) entry;
     if i < length (x_buckets l) then
       (let b = x_buckets l ! i
        in Some (l\<lparr>x_buckets := (x_buckets l)[i := b\<lparr>b_entries := (b_entries b)(k := None)\<rparr>]\<rparr>))
     else None
   }"

definition x_removeEntry ::
  "ref \<Rightarrow> ('k, 'v, 'w) ExpLRU \<Rightarrow> 'w \<Rightarrow> (('k, 'v, 'w) ExpLRU \<times> 'w) option" where
  "x_removeEntry entry l w = do {
     (_, el) \<leftarrow> list_Remove entry (x_evictList l);
     k \<leftarrow> get_Key el entry;
     let l = l\<lparr>x_evictList := el, x_entries := (x_entries l)(k := None)\<rparr>;
     l \<leftarrow> removeFromBucket entry l;
     case x_onEvict l of
       None \<Rightarrow> Some (l, w)
     | Some f \<Rightarrow> do {
         k \<leftarrow> get_Key (x_evictList l) entry;
         v \<leftarrow> get_Value (x_evictList l) entry;
         Some (l, f k v w)
       }
   }"

definition x_removeOldest ::
  "('k, 'v, 'w) ExpLRU \<Rightarrow> 'w \<Rightarrow> (('k, 'v, 'w) ExpLRU \<times> 'w) option" where
  "x_removeOldest l w =
     (let entry = Back (x_evictList l)
      in if entry \<noteq> Null then x_removeEntry entry l w else Some (l, w))"

definition x_Add ::
  "'k \<Rightarrow> 'v \<Rightarrow> time \<Rightarrow> ('k, 'v, 'w) ExpLRU \<Rightarrow> 'w \<Rightarrow> (bool \<times> ('k, 'v, 'w) ExpLRU \<times> 'w) option" where
  "x_Add key val now l w =
     (let expiresAt = now + x_ttl l
      in case x_entries l key of
        Some entry \<Rightarrow> do {
          el \<leftarrow> MoveToFront entry (x_evictList l);
          l \<leftarrow> removeFromBucket entry (l\<lparr>x_evictList := el\<rparr>);
          el \<leftarrow> set_Value entry val (x_evictList l);
          el \<leftarrow> set_ExpiresAt entry expiresAt el;
          l \<leftarrow> addToBucket entry (l\<lparr>x_evictList := el\<rparr>);
          Some (False, l, w)
        }
      | None \<Rightarrow> do {
          (entry, el) \<leftarrow> PushToFrontExpirable key val expiresAt (x_evictList l);
          let l = l\<lparr>x_evictList := el, x_entries := (x_entries l)(key \<mapsto> entry)\<rparr>;
          l \<leftarrow> addToBucket entry l;
          let evict = (x_size l > 0 \<and> list_Len (x_evictList l) > x_size l);
          if evict then do {
            (l, w) \<leftarrow> x_removeOldest l w;
            Some (evict, l, w)
          }
          else Some (evict, l, w)
        })"

definition x_Get ::
  "'k \<Rightarrow> time \<Rightarrow> ('k, 'v, 'w) ExpLRU \<Rightarrow> ('v option \<times> ('k, 'v, 'w) ExpLRU) option" where
  "x_Get key now l =
     (case x_entries l key of
        Some entry \<Rightarrow> do {
          exp \<leftarrow> get_ExpiresAt (x_evictList l) entry;
          if now > exp then Some (None, l)
          else do {
            el \<leftarrow> MoveToFront entry (x_evictList l);
            v \<leftarrow> get_Value el entry;
            Some (Some v, l\<lparr>x_evictList := el\<rparr>)
          }
        }
      | None \<Rightarrow> Some (None, l))"

definition x_Contains :: "'k \<Rightarrow> ('k, 'v, 'w) ExpLRU \<Rightarrow> bool" where
  "x_Contains key l = (case x_entries l key of Some _ \<Rightarrow> True | None \<Rightarrow> False)"

definition x_Peek :: "'k \<Rightarrow> time \<Rightarrow> ('k, 'v, 'w) ExpLRU \<Rightarrow> 'v option option" where
  "x_Peek key now l =
     (case x_entries l key of
        Some entry \<Rightarrow> do {
          exp \<leftarrow> get_ExpiresAt (x_evictList l) entry;
          if now > exp then Some None
          else do { v \<leftarrow> get_Value (x_evictList l) entry; Some (Some v) }
        }
      | None \<Rightarrow> Some None)"

definition x_Remove ::
  "'k \<Rightarrow> ('k, 'v, 'w) ExpLRU \<Rightarrow> 'w \<Rightarrow> (bool \<times> ('k, 'v, 'w) ExpLRU \<times> 'w) option" where
  "x_Remove key l w =
     (case x_entries l key of
        Some entry \<Rightarrow> do { (l, w) \<leftarrow> x_removeEntry entry l w; Some (True, l, w) }
      | None \<Rightarrow> Some (False, l, w))"

definition x_RemoveOldest ::
  "('k, 'v, 'w) ExpLRU \<Rightarrow> 'w \<Rightarrow> (('k \<times> 'v) option \<times> ('k, 'v, 'w) ExpLRU \<times> 'w) option" where
  "x_RemoveOldest l w =
     (let entry = Back (x_evictList l)
      in if entry \<noteq> Null then do {
           (l, w) \<leftarrow> x_removeEntry entry l w;
           k \<leftarrow> get_Key (x_evictList l) entry;
           v \<leftarrow> get_Value (x_evictList l) entry;
           Some (Some (k, v), l, w)
         }
         else Some (None, l, w))"

definition x_GetOldest :: "('k, 'v, 'w) ExpLRU \<Rightarrow> ('k \<times> 'v) option option" where
  "x_GetOldest l =
     (let entry = Back (x_evictList l)
      in if entry \<noteq> Null then do {
           k \<leftarrow> get_Key (x_evictList l) entry;
           v \<leftarrow> get_Value (x_evictList l) entry;
           Some (Some (k, v))
         }
         else Some None)"

text \<open>
  \<open>Keys\<close> and \<open>Values\<close> of the expirable cache append to a slice, so nothing bounds
  the walk but the ring itself: a walk that never reaches the sentinel has no result.
\<close>

partial_function (option) x_keys_loop ::
  "('k, 'v) LRUList \<Rightarrow> time \<Rightarrow> ref \<Rightarrow> 'k list \<Rightarrow> 'k list option" where
  "x_keys_loop l now entry keys =
     (if entry = Null then Some keys
      else do {
        exp \<leftarrow> get_ExpiresAt l entry;
        k \<leftarrow> get_Key l entry;
        p \<leftarrow> PrevEntry l entry;
        x_keys_loop l now p (if now > exp then keys else keys @ [k])
      })"

partial_function (option) x_values_loop ::
  "('k, 'v) LRUList \<Rightarrow> time \<Rightarrow> ref \<Rightarrow> 'v list \<Rightarrow> 'v list option" where
  "x_values_loop l now entry vals =
     (if entry = Null then Some vals
      else do {
        exp \<leftarrow> get_ExpiresAt l entry;
        v \<leftarrow> get_Value l entry;
        p \<leftarrow> PrevEntry l entry;
        x_values_loop l now p (if now > exp then vals else vals @ [v])
      })"

definition x_Keys :: "time \<Rightarrow> ('k, 'v, 'w) ExpLRU \<Rightarrow> 'k list option" where
  "x_Keys now l = x_keys_loop (x_evictList l) now (Back (x_evictList l)) []"

definition x_Values :: "time \<Rightarrow> ('k, 'v, 'w) ExpLRU \<Rightarrow> 'v list option" where
  "x_Values now l = x_values_loop (x_evictList l) now (Back (x_evictList l)) []"

definition x_Len :: "('k, 'v, 'w) ExpLRU \<Rightarrow> int" where
  "x_Len l = list_Len (x_evictList l)"

definition x_Cap :: "('k, 'v, 'w) ExpLRU \<Rightarrow> int" where
  "x_Cap l = x_size l"

text \<open>
  \<open>Purge\<close>: the first loop ranges over the index in the order \<open>ks\<close>; the second
  ranges over the buckets in slice order and, inside bucket number \<open>i\<close>, over its map in
  the order \<open>bks ! i\<close>, deleting \<open>entry.Key\<close> for every entry the map still holds
  when the range reaches it.
\<close>

fun x_purge_loop ::
  "'k list \<Rightarrow> ('k, 'v, 'w) ExpLRU \<Rightarrow> 'w \<Rightarrow> (('k, 'v, 'w) ExpLRU \<times> 'w) option" where
  "x_purge_loop [] l w = Some (l, w)"
| "x_purge_loop (k # ks) l w =
     (case x_entries l k of
        None \<Rightarrow> x_purge_loop ks l w
      | Some v \<Rightarrow> do {
          w \<leftarrow> (case x_onEvict l of
                  None \<Rightarrow> Some w
                | Some f \<Rightarrow> do { x \<leftarrow> get_Value (x_evictList l) v; Some (f k x w) });
          x_purge_loop ks (l\<lparr>x_entries := (x_entries l)(k := None)\<rparr>) w
        })"

fun purge_bucket :: "('k, 'v) LRUList \<Rightarrow> 'k list \<Rightarrow> 'k bucket \<Rightarrow> 'k bucket option" where
  "purge_bucket el [] b = Some b"
| "purge_bucket el (k # ks) b =
     (case b_entries b k of
        None \<Rightarrow> purge_bucket el ks b
      | Some entry \<Rightarrow> do {
          k' \<leftarrow> get_Key el entry;
          purge_bucket el ks (b\<lparr>b_entries := (b_entries b)(k' := None)\<rparr>)
        })"

fun purge_buckets ::
  "('k, 'v) LRUList \<Rightarrow> 'k list list \<Rightarrow> 'k bucket list \<Rightarrow> 'k bucket list option" where
  "purge_buckets el bks [] = Some []"
| "purge_buckets el bks (b # bs) = do {
     b' \<leftarrow> purge_bucket el (case bks of [] \<Rightarrow> [] | ks # _ \<Rightarrow> ks) b;
     bs' \<leftarrow> purge_buckets el (tl bks) bs;
     Some (b' # bs')
   }"

definition x_Purge ::
  "'k list \<Rightarrow> 'k list list \<Rightarrow> ('k, 'v, 'w) ExpLRU \<Rightarrow> 'w \<Rightarrow> (('k, 'v, 'w) ExpLRU \<times> 'w) option" where
  "x_Purge ks bks l w = do {
     (l, w) \<leftarrow> x_purge_loop ks l w;
     bs \<leftarrow> purge_buckets (x_evictList l) bks (x_buckets l);
     Some (l\<lparr>x_buckets := bs, x_evictList := list_Init (x_evictList l)\<rparr>, w)
   }"

function x_resize_loop ::
  "int \<Rightarrow> int \<Rightarrow> ('k, 'v, 'w) ExpLRU \<Rightarrow> 'w \<Rightarrow> (('k, 'v, 'w) ExpLRU \<times> 'w) option" where
  "x_resize_loop i diff l w =
     (if i < diff then do {
        (l, w) \<leftarrow> x_removeOldest l w;
        x_resize_loop (i + 1) diff l w
      }
      else Some (l, w))"
  by pat_completeness auto
termination
  by (relation "measure (\<lambda>(i, diff, l, w). nat (diff - i))") auto

definition x_Resize ::
  "int \<Rightarrow> ('k, 'v, 'w) ExpLRU \<Rightarrow> 'w \<Rightarrow> (int \<times> ('k, 'v, 'w) ExpLRU \<times> 'w) option" where
  "x_Resize sz l w =
     (if sz \<le> 0 then Some (0, l\<lparr>x_size := 0\<rparr>, w)
      else
        (let diff = list_Len (x_evictList l) - sz;
             diff = (if diff < 0 then 0 else diff)
         in do {
           (l, w) \<leftarrow> x_resize_loop 0 diff l w;
           Some (diff, l\<lparr>x_size := sz\<rparr>, w)
         }))"

text \<open>
  \<open>deleteExpired\<close>, the body of the sweeping goroutine. It reads \<open>nextBucket\<close>,
  may release the lock and sleep until the bucket's newest entry has expired, and then,
  under the lock again, removes every entry of that bucket and advances \<open>nextBucket\<close>.
  Only this goroutine writes \<open>nextBucket\<close>, so the index read before the sleep is the
  index after it, and the step below (the part after the sleep) is all that changes the
  cache. The range over the bucket's map yields the keys in the order \<open>ks\<close>, skipping
  a key that an earlier iteration has deleted.
\<close>

fun sweep_loop ::
  "nat \<Rightarrow> 'k list \<Rightarrow> ('k, 'v, 'w) ExpLRU \<Rightarrow> 'w \<Rightarrow> (('k, 'v, 'w) ExpLRU \<times> 'w) option" where
  "sweep_loop bucketIndex [] l w = Some (l, w)"
| "sweep_loop bucketIndex (k # ks) l w =
     (if bucketIndex < length (x_buckets l) then
        (case b_entries (x_buckets l ! bucketIndex) k of
           None \<Rightarrow> sweep_loop bucketIndex ks l w
         | Some entry \<Rightarrow> do {
             (l, w) \<leftarrow> x_removeEntry entry l w;
             sweep_loop bucketIndex ks l w
           })
      else None)"

definition deleteExpired ::
  "'k list \<Rightarrow> ('k, 'v, 'w) ExpLRU \<Rightarrow> 'w \<Rightarrow> (('k, 'v, 'w) ExpLRU \<times> 'w) option" where
  "deleteExpired ks l w =
     (let bucketIndex = x_nextBucket l
      in if bucketIndex < length (x_buckets l) then do {
           (l, w) \<leftarrow> sweep_loop bucketIndex ks l w;
           Some (l\<lparr>x_nextBucket := ((x_nextBucket l + 1) mod 256) mod numBuckets\<rparr>, w)
         }
         else None)"

section \<open>The thread-safe cache (package main, cache.go)\<close>

text \<open>
  The wrapped basic cache is a pointer that is nil when its construction failed
  (\<open>lru = None\<close>); calling through it panics. The callback registered with the
  wrapped cache is \<open>onEvictCB\<close>, which only appends to the two buffers of the
  \<open>Cache\<close>: the outside state of the wrapped cache is that pair of slices. The
  user's callback transforms the outside state \<open>'w\<close> of the \<open>Cache\<close>. The
  read/write lock is not modelled: an operation is one atomic step, its callbacks
  following it.
\<close>

record ('k, 'v, 'w) Cache =
  lru :: "('k, 'v, 'k list \<times> 'v list) LRU option"
  evictedKeys :: "'k list"
  evictedValues :: "'v list"
  c_onEvict :: "('k \<Rightarrow> 'v \<Rightarrow> 'w \<Rightarrow> 'w) option"

definition initEvictBuffers :: "('k, 'v, 'w) Cache \<Rightarrow> ('k, 'v, 'w) Cache" where
  "initEvictBuffers c = c\<lparr>evictedKeys := [], evictedValues := []\<rparr>"

definition onEvictCB :: "'k \<Rightarrow> 'v \<Rightarrow> 'k list \<times> 'v list \<Rightarrow> 'k list \<times> 'v list" where
  "onEvictCB key val buf = (fst buf @ [key], snd buf @ [val])"

text \<open>
  \<open>NewWithOnEvict\<close> returns the pair \<open>(c, err)\<close>: the error of \<open>NewLRU\<close> is
  passed on, next to a \<open>Cache\<close> whose \<open>lru\<close> is then nil.
\<close>

definition NewWithOnEvict ::
  "int \<Rightarrow> ('k \<Rightarrow> 'v \<Rightarrow> 'w \<Rightarrow> 'w) option \<Rightarrow> ('k, 'v, 'w) Cache \<times> error option" where
  "NewWithOnEvict sz cb =
     (let c = \<lparr>lru = None, evictedKeys = [], evictedValues = [], c_onEvict = cb\<rparr>;
          c = (if cb \<noteq> None then initEvictBuffers c else c);
          cb' = (if cb \<noteq> None then Some onEvictCB else None)
      in case NewLRU sz cb' of
           Inl err \<Rightarrow> (c\<lparr>lru := None\<rparr>, Some err)
         | Inr l \<Rightarrow> (c\<lparr>lru := Some l\<rparr>, None))"

definition New :: "int \<Rightarrow> ('k, 'v, 'w) Cache \<times> error option" where
  "New sz = NewWithOnEvict sz None"

text \<open>
  \<open>take_one\<close> is the block
  \<open>k, v = c.evictedKeys[0], c.evictedValues[0]; c.evictedKeys, c.evictedValues = c.evictedKeys[:0], c.evictedValues[:0]\<close>;
  indexing an empty slice panics.
\<close>

definition take_one :: "('k, 'v, 'w) Cache \<Rightarrow> (('k \<times> 'v) \<times> ('k, 'v, 'w) Cache) option" where
  "take_one c =
     (case evictedKeys c of
        [] \<Rightarrow> None
      | k # _ \<Rightarrow> (case evictedValues c of
                    [] \<Rightarrow> None
                  | v # _ \<Rightarrow> Some ((k, v), c\<lparr>evictedKeys := [], evictedValues := []\<rparr>)))"

text \<open>
  \<open>with_lru\<close> runs an operation of the wrapped cache on the buffers and stores the
  wrapped cache and the buffers back.
\<close>

definition with_lru ::
  "(('k, 'v, 'k list \<times> 'v list) LRU \<Rightarrow> 'k list \<times> 'v list \<Rightarrow>
      ('r \<times> ('k, 'v, 'k list \<times> 'v list) LRU \<times> ('k list \<times> 'v list)) option) \<Rightarrow>
   ('k, 'v, 'w) Cache \<Rightarrow> ('r \<times> ('k, 'v, 'w) Cache) option" where
  "with_lru f c =
     (case lru c of
        None \<Rightarrow> None
      | Some l \<Rightarrow> do {
          (r, l, buf) \<leftarrow> f l (evictedKeys c, evictedValues c);
          Some (r, c\<lparr>lru := Some l, evictedKeys := fst buf, evictedValues := snd buf\<rparr>)
        })"

text \<open>
  \<open>deliver_one\<close> is the common tail of \<open>Add\<close>, \<open>ContainsOrAdd\<close>, \<open>PeekOrAdd\<close>,
  \<open>Remove\<close> and \<open>RemoveOldest\<close>: when the flag is set and a user callback is
  registered, take the first buffered pair, reset the buffers, and call the callback
  after the unlock.
\<close>

definition deliver_one ::
  "bool \<Rightarrow> ('k, 'v, 'w) Cache \<Rightarrow> 'w \<Rightarrow> (('k, 'v, 'w) Cache \<times> 'w) option" where
  "deliver_one flag c w =
     (case c_onEvict c of
        Some f \<Rightarrow>
          if flag then do { ((k, v), c) \<leftarrow> take_one c; Some (c, f k v w) }
          else Some (c, w)
      | None \<Rightarrow> Some (c, w))"

definition Cache_Add ::
  "'k \<Rightarrow> 'v \<Rightarrow> ('k, 'v, 'w) Cache \<Rightarrow> 'w \<Rightarrow> (bool \<times> ('k, 'v, 'w) Cache \<times> 'w) option" where
  "Cache_Add key val c w = do {
     (evicted, c) \<leftarrow> with_lru (Add key val) c;
     (c, w) \<leftarrow> deliver_one evicted c w;
     Some (evicted, c, w)
   }"

definition Cache_Get ::
  "'k \<Rightarrow> ('k, 'v, 'w) Cache \<Rightarrow> ('v option \<times> ('k, 'v, 'w) Cache) option" where
  "Cache_Get key c =
     (case lru c of
        None \<Rightarrow> None
      | Some l \<Rightarrow> do { (r, l) \<leftarrow> Get key l; Some (r, c\<lparr>lru := Some l\<rparr>) })"

definition Cache_Contains :: "'k \<Rightarrow> ('k, 'v, 'w) Cache \<Rightarrow> bool option" where
  "Cache_Contains key c = map_option (Contains key) (lru c)"

definition Cache_Peek :: "'k \<Rightarrow> ('k, 'v, 'w) Cache \<Rightarrow> 'v option option" where
  "Cache_Peek key c = (case lru c of None \<Rightarrow> None | Some l \<Rightarrow> Peek key l)"

definition ContainsOrAdd ::
  "'k \<Rightarrow> 'v \<Rightarrow> ('k, 'v, 'w) Cache \<Rightarrow> 'w \<Rightarrow> ((bool \<times> bool) \<times> ('k, 'v, 'w) Cache \<times> 'w) option" where
  "ContainsOrAdd key val c w =
     (case lru c of
        None \<Rightarrow> None
      | Some l \<Rightarrow>
          if Contains key l then Some ((True, False), c, w)
          else do {
            (evicted, c) \<leftarrow> with_lru (Add key val) c;
            (c, w) \<leftarrow> deliver_one evicted c w;
            Some ((False, evicted), c, w)
          })"

definition PeekOrAdd ::
  "'k \<Rightarrow> 'v \<Rightarrow> ('k, 'v, 'w) Cache \<Rightarrow> 'w \<Rightarrow>
     (('v option \<times> bool) \<times> ('k, 'v, 'w) Cache \<times> 'w) option" where
  "PeekOrAdd key val c w =
     (case lru c of
        None \<Rightarrow> None
      | Some l \<Rightarrow> do {
          prev \<leftarrow> Peek key l;
          case prev of
            Some p \<Rightarrow> Some ((Some p, False), c, w)
          | None \<Rightarrow> do {
              (evicted, c) \<leftarrow> with_lru (Add key val) c;
              (c, w) \<leftarrow> deliver_one evicted c w;
              Some ((None, evicted), c, w)
            }
        })"

definition Cache_Remove ::
  "'k \<Rightarrow> ('k, 'v, 'w) Cache \<Rightarrow> 'w \<Rightarrow> (bool \<times> ('k, 'v, 'w) Cache \<times> 'w) option" where
  "Cache_Remove key c w = do {
     (ok, c) \<leftarrow> with_lru (Remove key) c;
     (c, w) \<leftarrow> deliver_one ok c w;
     Some (ok, c, w)
   }"

definition Cache_RemoveOldest ::
  "('k, 'v, 'w) Cache \<Rightarrow> 'w \<Rightarrow> (('k \<times> 'v) option \<times> ('k, 'v, 'w) Cache \<times> 'w) option" where
  "Cache_RemoveOldest c w = do {
     (r, c) \<leftarrow> with_lru RemoveOldest c;
     (c, w) \<leftarrow> deliver_one (r \<noteq> None) c w;
     Some (r, c, w)
   }"

definition Cache_GetOldest :: "('k, 'v, 'w) Cache \<Rightarrow> ('k \<times> 'v) option option" where
  "Cache_GetOldest c = (case lru c of None \<Rightarrow> None | Some l \<Rightarrow> GetOldest l)"

definition Cache_Keys :: "('k, 'v, 'w) Cache \<Rightarrow> 'k option list option" where
  "Cache_Keys c = (case lru c of None \<Rightarrow> None | Some l \<Rightarrow> Keys l)"

definition Cache_Values :: "('k, 'v, 'w) Cache \<Rightarrow> 'v option list option" where
  "Cache_Values c = (case lru c of None \<Rightarrow> None | Some l \<Rightarrow> Values l)"

definition Cache_Len :: "('k, 'v, 'w) Cache \<Rightarrow> int option" where
  "Cache_Len c = map_option Len (lru c)"

definition Cache_Cap :: "('k, 'v, 'w) Cache \<Rightarrow> int option" where
  "Cache_Cap c = map_option Cap (lru c)"

text \<open>
  \<open>deliver_all\<close> is the loop \<open>for i := 0; i < len(keys); i++ { c.onEvict(keys[i], values[i]) }\<close>;
  \<open>values[i]\<close> beyond the slice panics.
\<close>

fun deliver_all :: "('k \<Rightarrow> 'v \<Rightarrow> 'w \<Rightarrow> 'w) \<Rightarrow> 'k list \<Rightarrow> 'v list \<Rightarrow> 'w \<Rightarrow> 'w option" where
  "deliver_all f [] vs w = Some w"
| "deliver_all f (k # ks) [] w = None"
| "deliver_all f (k # ks) (v # vs) w = deliver_all f ks vs (f k v w)"

definition Cache_Purge ::
  "'k list \<Rightarrow> ('k, 'v, 'w) Cache \<Rightarrow> 'w \<Rightarrow> (('k, 'v, 'w) Cache \<times> 'w) option" where
  "Cache_Purge order c w = do {
     (_, c) \<leftarrow> with_lru (\<lambda>l buf. map_option (Pair ()) (Purge order l buf)) c;
     let (ks, vs, c) =
       (if c_onEvict c \<noteq> None \<and> length (evictedKeys c) > 0
        then (evictedKeys c, evictedValues c, initEvictBuffers c)
        else ([], [], c));
     case c_onEvict c of
       Some f \<Rightarrow> do { w \<leftarrow> deliver_all f ks vs w; Some (c, w) }
     | None \<Rightarrow> Some (c, w)
   }"

definition Cache_Resize ::
  "int \<Rightarrow> ('k, 'v, 'w) Cache \<Rightarrow> 'w \<Rightarrow> (int \<times> ('k, 'v, 'w) Cache \<times> 'w) option" where
  "Cache_Resize sz c w = do {
     (evicted, c) \<leftarrow> with_lru (Resize sz) c;
     let (ks, vs, c) =
       (if evicted > 0 \<and> c_onEvict c \<noteq> None
        then (evictedKeys c, evictedValues c, initEvictBuffers c)
        else ([], [], c));
     case c_onEvict c of
       Some f \<Rightarrow>
         if evicted > 0 then do { w \<leftarrow> deliver_all f ks vs w; Some (evicted, c, w) }
         else Some (evicted, c, w)
     | None \<Rightarrow> Some (evicted, c, w)
   }"

section \<open>The heap as functions, and the ring\<close>

text \<open>
  For the proofs the heap of a list is read through total functions: \<open>nextf\<close> and
  \<open>prevf\<close> are the link fields (of the sentinel too), \<open>listf\<close>, \<open>keyf\<close>,
  \<open>valf\<close>, \<open>expf\<close> and \<open>bktf\<close> the other fields of the cell at an address, and
  \<open>valid l r\<close> says that \<open>r\<close> may be dereferenced. \<open>put_next\<close>, \<open>put_prev\<close> and
  \<open>put_cell\<close> are the writes, where they do not panic.

  \<open>ring l xs\<close> is the representation invariant of the list: the cells at the distinct
  addresses \<open>xs\<close> (front first) are linked into a ring through the sentinel, forwards by
  \<open>next\<close> and backwards by \<open>prev\<close>, all belong to the list, \<open>len\<close> is their number,
  and every allocated address is below \<open>fresh\<close>.
\<close>

definition nextf :: "('k, 'v) LRUList \<Rightarrow> ref \<Rightarrow> ref" where
  "nextf l r = (case get_next l r of Some n \<Rightarrow> n | None \<Rightarrow> Null)"

definition prevf :: "('k, 'v) LRUList \<Rightarrow> ref \<Rightarrow> ref" where
  "prevf l r = (case get_prev l r of Some n \<Rightarrow> n | None \<Rightarrow> Null)"

definition valid :: "('k, 'v) LRUList \<Rightarrow> ref \<Rightarrow> bool" where
  "valid l r = (case r of Null \<Rightarrow> False | Root \<Rightarrow> True | Ptr a \<Rightarrow> cells l a \<noteq> None)"

fun chain :: "(ref \<Rightarrow> ref) \<Rightarrow> ref list \<Rightarrow> bool" where
  "chain f (x # y # zs) = (f x = y \<and> chain f (y # zs))"
| "chain f _ = True"

definition cyc :: "(ref \<Rightarrow> ref) \<Rightarrow> nat list \<Rightarrow> bool" where
  "cyc f xs = chain f (Root # map Ptr xs @ [Root])"

definition listf :: "('k, 'v) LRUList \<Rightarrow> nat \<Rightarrow> bool" where
  "listf l a = (case cells l a of Some e \<Rightarrow> e_list e | None \<Rightarrow> False)"

definition keyf :: "('k, 'v) LRUList \<Rightarrow> nat \<Rightarrow> 'k" where
  "keyf l a = Key (the (cells l a))"

definition valf :: "('k, 'v) LRUList \<Rightarrow> nat \<Rightarrow> 'v" where
  "valf l a = Value (the (cells l a))"

definition expf :: "('k, 'v) LRUList \<Rightarrow> nat \<Rightarrow> time" where
  "expf l a = ExpiresAt (the (cells l a))"

definition bktf :: "('k, 'v) LRUList \<Rightarrow> nat \<Rightarrow> nat" where
  "bktf l a = Bucket (the (cells l a))"

definition put_cell ::
  "ref \<Rightarrow> (('k, 'v) Entry \<Rightarrow> ('k, 'v) Entry) \<Rightarrow> ('k, 'v) LRUList \<Rightarrow> ('k, 'v) LRUList" where
  "put_cell r g l = (case upd_cell r g l of Some l' \<Rightarrow> l' | None \<Rightarrow> l)"

definition put_next :: "ref \<Rightarrow> ref \<Rightarrow> ('k, 'v) LRUList \<Rightarrow> ('k, 'v) LRUList" where
  "put_next r v l = (case set_next r v l of Some l' \<Rightarrow> l' | None \<Rightarrow> l)"

definition put_prev :: "ref \<Rightarrow> ref \<Rightarrow> ('k, 'v) LRUList \<Rightarrow> ('k, 'v) LRUList" where
  "put_prev r v l = (case set_prev r v l of Some l' \<Rightarrow> l' | None \<Rightarrow> l)"

definition ring :: "('k, 'v) LRUList \<Rightarrow> nat list \<Rightarrow> bool" where
  "ring l xs \<longleftrightarrow>
     distinct xs \<and> (\<forall>a \<in> set xs. valid l (Ptr a) \<and> listf l a) \<and>
     cyc (nextf l) xs \<and> cyc (prevf l) (rev xs) \<and>
     len l = int (length xs) \<and> (\<forall>a. valid l (Ptr a) \<longrightarrow> a < fresh l)"

definition alloc :: "'k \<Rightarrow> 'v \<Rightarrow> time \<Rightarrow> ('k, 'v) LRUList \<Rightarrow> ('k, 'v) LRUList" where
  "alloc k v t l =
     l\<lparr>cells := (cells l)(fresh l \<mapsto> \<lparr>e_next = Null, e_prev = Null, e_list = False,
               Key = k, Value = v, ExpiresAt = t, Bucket = 0\<rparr>), fresh := Suc (fresh l)\<rparr>"

section \<open>Invariant and reachable states of the basic cache\<close>

text \<open>
  \<open>cb_apply\<close> is a call of the optional callback. \<open>index_ok m l xs\<close> says that the
  index \<open>m\<close> holds exactly the keys of the cells \<open>xs\<close> of the list \<open>l\<close>, each with
  the address of its cell. \<open>lru_inv s xs\<close> is the invariant of a basic cache whose ring
  holds the cells \<open>xs\<close>, most recently used first. \<open>reachable\<close> are the states that
  the constructor and the public operations produce.
\<close>

definition cb_apply :: "('k \<Rightarrow> 'v \<Rightarrow> 'w \<Rightarrow> 'w) option \<Rightarrow> 'k \<Rightarrow> 'v \<Rightarrow> 'w \<Rightarrow> 'w" where
  "cb_apply cb k v w = (case cb of None \<Rightarrow> w | Some f \<Rightarrow> f k v w)"

definition index_ok :: "('k \<rightharpoonup> ref) \<Rightarrow> ('k, 'v) LRUList \<Rightarrow> nat list \<Rightarrow> bool" where
  "index_ok m l xs \<longleftrightarrow>
     (\<forall>a \<in> set xs. m (keyf l a) = Some (Ptr a)) \<and>
     (\<forall>k r. m k = Some r \<longrightarrow> (\<exists>a \<in> set xs. r = Ptr a \<and> keyf l a = k))"

definition lru_inv :: "('k, 'v, 'w) LRU \<Rightarrow> nat list \<Rightarrow> bool" where
  "lru_inv s xs \<longleftrightarrow> ring (evictList s) xs \<and> index_ok (entries s) (evictList s) xs"

text \<open>the address the index holds for a key\<close>

definition addr_of :: "('k \<rightharpoonup> ref) \<Rightarrow> 'k \<Rightarrow> nat" where
  "addr_of m k = (case m k of Some (Ptr a) \<Rightarrow> a | _ \<Rightarrow> 0)"

inductive reachable :: "('k, 'v, 'w) LRU \<Rightarrow> bool" where
  r_New: "NewLRU sz cb = Inr s \<Longrightarrow> reachable s"
| r_Add: "reachable s \<Longrightarrow> Add key val s w = Some (ev, s', w') \<Longrightarrow> reachable s'"
| r_Get: "reachable s \<Longrightarrow> Get key s = Some (r, s') \<Longrightarrow> reachable s'"
| r_Remove: "reachable s \<Longrightarrow> Remove key s w = Some (ok, s', w') \<Longrightarrow> reachable s'"
| r_RemoveOldest: "reachable s \<Longrightarrow> RemoveOldest s w = Some (kv, s', w') \<Longrightarrow> reachable s'"
| r_Purge: "reachable s \<Longrightarrow> range_order (entries s) ks \<Longrightarrow> Purge ks s w = Some (s', w') \<Longrightarrow>
            reachable s'"
| r_Resize: "reachable s \<Longrightarrow> Resize sz s w = Some (n, s', w') \<Longrightarrow> reachable s'"

definition bounded :: "('k, 'v, 'w) LRU \<Rightarrow> nat list \<Rightarrow> bool" where
  "bounded s xs \<longleftrightarrow> lru_inv s xs \<and> (size_lru s > 0 \<longrightarrow> int (length xs) \<le> size_lru s)"

section \<open>Example states\<close>

text \<open>
  A callback that records its calls in a log, and the states of a cache of capacity 2
  after no, one and two calls of \<open>Add\<close>.
\<close>

definition log_evict :: "'k \<Rightarrow> 'v \<Rightarrow> ('k \<times> 'v) list \<Rightarrow> ('k \<times> 'v) list" where
  "log_evict k v t = t @ [(k, v)]"

definition ex0 :: "(nat, nat, (nat \<times> nat) list) LRU" where
  "ex0 = projr (NewLRU 2 (Some log_evict))"

definition ex1 :: "(nat, nat, (nat \<times> nat) list) LRU" where
  "ex1 = fst (snd (the (Add 1 10 ex0 [])))"

definition ex2 :: "(nat, nat, (nat \<times> nat) list) LRU" where
  "ex2 = fst (snd (the (Add 2 20 ex1 [])))"

text \<open>
  An expirable cache of capacity 5 with a time to live of 10, and its state after
  \<open>Add 1 10\<close> at time 0: the entry expires at time 10.
\<close>

definition xe0 :: "(nat, nat, (nat \<times> nat) list) ExpLRU" where
  "xe0 = x_NewLRU 5 (Some log_evict) 10"

definition xe1 :: "(nat, nat, (nat \<times> nat) list) ExpLRU" where
  "xe1 = fst (snd (the (x_Add 1 10 0 xe0 [])))"

section \<open>The entries of a basic cache, oldest first\<close>

text \<open>
  \<open>contents s xs\<close> lists the key and value of the cells \<open>xs\<close> from the oldest to the
  newest; \<open>holds s kvs\<close> says that the cache \<open>s\<close> satisfies its invariant and holds
  exactly the entries \<open>kvs\<close>, oldest first. \<open>add_all\<close> calls \<open>Add\<close> for a list of
  keys and values in turn and collects the results.
\<close>

definition contents :: "('k, 'v, 'w) LRU \<Rightarrow> nat list \<Rightarrow> ('k \<times> 'v) list" where
  "contents s xs = map (\<lambda>a. (keyf (evictList s) a, valf (evictList s) a)) (rev xs)"

fun add_all ::
  "('k \<times> 'v) list \<Rightarrow> ('k, 'v, 'w) LRU \<Rightarrow> 'w \<Rightarrow> (bool list \<times> ('k, 'v, 'w) LRU \<times> 'w) option" where
  "add_all [] s w = Some ([], s, w)"
| "add_all (kv # kvs) s w = do {
     (ev, s, w) \<leftarrow> Add (fst kv) (snd kv) s w;
     (evs, s, w) \<leftarrow> add_all kvs s w;
     Some (ev # evs, s, w)
   }"

definition holds :: "('k, 'v, 'w) LRU \<Rightarrow> ('k \<times> 'v) list \<Rightarrow> bool" where
  "holds s kvs \<longleftrightarrow> (\<exists>xs. lru_inv s xs \<and> contents s xs = kvs)"

section \<open>Invariant and reachable states of the expirable cache\<close>

text \<open>
  \<open>buckets_ok bs l xs\<close>: every entry of a bucket is the cell of its key in \<open>xs\<close>, and
  that cell records the bucket's number; and every cell of \<open>xs\<close> is in the bucket it
  records. \<open>x_inv s xs\<close> is the invariant of an expirable cache whose ring holds the
  cells \<open>xs\<close>. \<open>x_frame s s'\<close> says what a removal leaves as it is. \<open>x_reachable\<close>
  are the states that the constructor, the public operations and the sweep produce; the
  sweep runs only when the constructor started its goroutine.
\<close>

definition buckets_ok :: "'k bucket list \<Rightarrow> ('k, 'v) LRUList \<Rightarrow> nat list \<Rightarrow> bool" where
  "buckets_ok bs l xs \<longleftrightarrow>
     (\<forall>i < length bs. \<forall>k r. b_entries (bs ! i) k = Some r \<longrightarrow>
        (\<exists>a \<in> set xs. r = Ptr a \<and> keyf l a = k \<and> bktf l a = i)) \<and>
     (\<forall>a \<in> set xs. bktf l a < length bs \<and> b_entries (bs ! bktf l a) (keyf l a) = Some (Ptr a))"

definition x_inv :: "('k, 'v, 'w) ExpLRU \<Rightarrow> nat list \<Rightarrow> bool" where
  "x_inv s xs \<longleftrightarrow>
     ring (x_evictList s) xs \<and> index_ok (x_entries s) (x_evictList s) xs \<and>
     buckets_ok (x_buckets s) (x_evictList s) xs \<and>
     length (x_buckets s) = numBuckets \<and> x_nextBucket s < numBuckets"

definition bk_del :: "nat \<Rightarrow> 'k \<Rightarrow> 'k bucket list \<Rightarrow> 'k bucket list" where
  "bk_del i k bs = bs[i := (bs ! i)\<lparr>b_entries := (b_entries (bs ! i))(k := None)\<rparr>]"

definition bk_add :: "nat \<Rightarrow> 'k \<Rightarrow> ref \<Rightarrow> time \<Rightarrow> 'k bucket list \<Rightarrow> 'k bucket list" where
  "bk_add i k r t bs =
     bs[i := (let b = (bs ! i)\<lparr>b_entries := (b_entries (bs ! i))(k \<mapsto> r)\<rparr>
              in if newestEntry b < t then b\<lparr>newestEntry := t\<rparr> else b)]"

definition x_frame :: "('k, 'v, 'w) ExpLRU \<Rightarrow> ('k, 'v, 'w) ExpLRU \<Rightarrow> bool" where
  "x_frame s s' \<longleftrightarrow>
     keyf (x_evictList s') = keyf (x_evictList s) \<and> valf (x_evictList s') = valf (x_evictList s) \<and>
     expf (x_evictList s') = expf (x_evictList s) \<and> bktf (x_evictList s') = bktf (x_evictList s) \<and>
     valid (x_evictList s') = valid (x_evictList s) \<and>
     x_size s' = x_size s \<and> x_onEvict s' = x_onEvict s \<and> x_ttl s' = x_ttl s \<and>
     x_nextBucket s' = x_nextBucket s"

inductive x_reachable :: "('k, 'v, 'w) ExpLRU \<Rightarrow> bool" where
  x_r_New: "x_reachable (x_NewLRU sz cb ttl)"
| x_r_Add: "x_reachable s \<Longrightarrow> x_Add key val now s w = Some (ev, s', w') \<Longrightarrow> x_reachable s'"
| x_r_Get: "x_reachable s \<Longrightarrow> x_Get key now s = Some (r, s') \<Longrightarrow> x_reachable s'"
| x_r_Remove: "x_reachable s \<Longrightarrow> x_Remove key s w = Some (ok, s', w') \<Longrightarrow> x_reachable s'"
| x_r_RemoveOldest:
    "x_reachable s \<Longrightarrow> x_RemoveOldest s w = Some (kv, s', w') \<Longrightarrow> x_reachable s'"
| x_r_Purge:
    "x_reachable s \<Longrightarrow> range_order (x_entries s) ks \<Longrightarrow>
     list_all2 (\<lambda>b ks. range_order (b_entries b) ks) (x_buckets s) bks \<Longrightarrow>
     x_Purge ks bks s w = Some (s', w') \<Longrightarrow> x_reachable s'"
| x_r_Resize: "x_reachable s \<Longrightarrow> x_Resize sz s w = Some (n, s', w') \<Longrightarrow> x_reachable s'"
| x_r_deleteExpired:
    "x_reachable s \<Longrightarrow> x_ttl s \<noteq> noEvictionTTL \<Longrightarrow>
     range_order (b_entries (x_buckets s ! x_nextBucket s)) ks \<Longrightarrow>
     deleteExpired ks s w = Some (s', w') \<Longrightarrow> x_reachable s'"

definition x_bounded :: "('k, 'v, 'w) ExpLRU \<Rightarrow> nat list \<Rightarrow> bool" where
  "x_bounded s xs \<longleftrightarrow> x_inv s xs \<and> (x_size s > 0 \<longrightarrow> int (length xs) \<le> x_size s)"

section \<open>The thread-safe cache: invariant and reachable states\<close>

text \<open>
  Between two public calls the wrapped cache is there and well formed, the callback it
  holds is \<open>onEvictCB\<close> exactly when a user callback is registered, and both buffers
  are empty. The reachable states are those of a constructor call that returned no error,
  followed by public calls that change the cache.
\<close>

definition c_inv :: "('k, 'v, 'w) Cache \<Rightarrow> bool" where
  "c_inv c \<longleftrightarrow>
     (\<exists>l xs. lru c = Some l \<and> lru_inv l xs \<and>
        onEvict l = (if c_onEvict c = None then None else Some onEvictCB)) \<and>
     evictedKeys c = [] \<and> evictedValues c = []"

inductive c_reachable :: "('k, 'v, 'w) Cache \<Rightarrow> bool" where
  c_New: "NewWithOnEvict sz cb = (c, None) \<Longrightarrow> c_reachable c"
| c_Add: "c_reachable c \<Longrightarrow> Cache_Add key val c w = Some (ev, c', w') \<Longrightarrow> c_reachable c'"
| c_Get: "c_reachable c \<Longrightarrow> Cache_Get key c = Some (r, c') \<Longrightarrow> c_reachable c'"
| c_ContainsOrAdd:
    "c_reachable c \<Longrightarrow> ContainsOrAdd key val c w = Some (res, c', w') \<Longrightarrow> c_reachable c'"
| c_PeekOrAdd:
    "c_reachable c \<Longrightarrow> PeekOrAdd key val c w = Some (pres, c', w') \<Longrightarrow> c_reachable c'"
| c_Remove: "c_reachable c \<Longrightarrow> Cache_Remove key c w = Some (ok, c', w') \<Longrightarrow> c_reachable c'"
| c_RemoveOldest:
    "c_reachable c \<Longrightarrow> Cache_RemoveOldest c w = Some (kv, c', w') \<Longrightarrow> c_reachable c'"
| c_Purge:
    "c_reachable c \<Longrightarrow> lru c = Some l \<Longrightarrow> range_order (entries l) ks \<Longrightarrow>
     Cache_Purge ks c w = Some (c', w') \<Longrightarrow> c_reachable c'"
| c_Resize: "c_reachable c \<Longrightarrow> Cache_Resize sz c w = Some (n, c', w') \<Longrightarrow> c_reachable c'"

definition drained :: "('k, 'v, 'w) Cache \<Rightarrow> bool" where
  "drained c \<longleftrightarrow> evictedKeys c = [] \<and> evictedValues c = []"

text \<open>
  A thread-safe cache of capacity 2 with the logging callback, after no, one and two
  calls of \<open>Add\<close>.
\<close>

definition cx0 :: "(nat, nat, (nat \<times> nat) list) Cache" where
  "cx0 = fst (NewWithOnEvict 2 (Some log_evict))"

definition cx1 :: "(nat, nat, (nat \<times> nat) list) Cache" where
  "cx1 = fst (snd (the (Cache_Add 1 10 cx0 [])))"

definition cx2 :: "(nat, nat, (nat \<times> nat) list) Cache" where
  "cx2 = fst (snd (the (Cache_Add 2 20 cx1 [])))"

section \<open>Evaluating the model\<close>

lemmas heap_defs =
  set_prev_def set_next_def get_next_def get_prev_def upd_cell_def set_list_def get_list_def
  set_Bucket_def get_Bucket_def get_Key_def get_Value_def set_Value_def get_cell_def
  get_ExpiresAt_def set_ExpiresAt_def

lemmas list_defs =
  NewList_def list_Init_def PushToFrontExpirable_def PushToFront_def lazyInit_def
  insertValue_def list_insert_def list_Len_def Back_def list_Remove_def list_move_def
  MoveToFront_def PrevEntry_def

declare keys_loop.simps [simp del] values_loop.simps [simp del]
  resize_loop.simps [simp del] x_resize_loop.simps [simp del]

section \<open>The list operations on a ring\<close>

lemma chain_append:
  "chain f (xs @ y # ys) \<longleftrightarrow> chain f (xs @ [y]) \<and> chain f (y # ys)"
  by (induction f xs rule: chain.induct) auto

lemma chain_snoc:
  "chain f (xs @ [x, y]) \<longleftrightarrow> chain f (xs @ [x]) \<and> f x = y"
  using chain_append [of f "xs" x "[y]"] by auto

lemma chain_upd:
  "a \<notin> set (butlast zs) \<Longrightarrow> chain (f(a := b)) zs = chain f zs"
  by (induction f zs rule: chain.induct) auto

lemma cyc_Nil: "cyc f [] \<longleftrightarrow> f Root = Root"
  by (simp add: cyc_def)

lemma cyc_Cons: "cyc f (a # xs) \<longleftrightarrow> f Root = Ptr a \<and> chain f (Ptr a # map Ptr xs @ [Root])"
  by (simp add: cyc_def)

lemma cyc_split:
  "cyc f (ys @ a # zs) \<longleftrightarrow>
     chain f (Root # map Ptr ys @ [Ptr a]) \<and> chain f (Ptr a # map Ptr zs @ [Root])"
  unfolding cyc_def using chain_append [of f "Root # map Ptr ys" "Ptr a" "map Ptr zs @ [Root]"]
  by simp

lemma chain_last:
  "chain f (xs @ [y]) \<Longrightarrow> xs \<noteq> [] \<Longrightarrow> f (last xs) = y"
  by (induction f xs rule: chain.induct) (auto split: if_splits)

lemma chain_hd:
  "chain f (x # ys) \<Longrightarrow> ys \<noteq> [] \<Longrightarrow> f x = hd ys"
  by (cases ys) auto

lemma chain_butlast: "chain f (xs @ [y]) \<Longrightarrow> chain f xs"
  by (induction f xs rule: chain.induct) (auto)

lemma chain_snoc_iff: "xs \<noteq> [] \<Longrightarrow> chain f (xs @ [y]) \<longleftrightarrow> chain f xs \<and> f (last xs) = y"
  by (induction f xs rule: chain.induct) (auto)

lemma chain_Cons_iff: "ys \<noteq> [] \<Longrightarrow> chain f (x # ys) \<longleftrightarrow> f x = hd ys \<and> chain f ys"
  by (cases ys) auto

lemma chain_join:
  "xs \<noteq> [] \<Longrightarrow> ys \<noteq> [] \<Longrightarrow>
   chain f (xs @ ys) \<longleftrightarrow> chain f xs \<and> f (last xs) = hd ys \<and> chain f ys"
  by (induction f xs rule: chain.induct) (auto simp: chain_Cons_iff)

lemma cyc_unlink:
  assumes "cyc f (ys @ a # zs)" "distinct (ys @ a # zs)"
  shows "cyc (f(last (Root # map Ptr ys) := hd (map Ptr zs @ [Root]), Ptr a := c)) (ys @ zs)"
proof -
  let ?P = "Root # map Ptr ys" and ?N = "map Ptr zs @ [Root]"
  let ?p = "last ?P" and ?n = "hd ?N"
  let ?g = "f(?p := ?n, Ptr a := c)"
  from assms have P: "chain f (?P @ [Ptr a])" and N: "chain f (Ptr a # ?N)"
    by (simp_all add: cyc_split)
  have pa: "?p \<noteq> Ptr a" using assms(2) by (cases ys rule: rev_cases) auto
  have "chain f ?P" using P chain_butlast by blast
  moreover have "Ptr a \<notin> set (butlast ?P)" using assms(2) by (auto dest: in_set_butlastD)
  moreover have "?p \<notin> set (butlast ?P)" using assms(2)
    by (cases ys rule: rev_cases) (auto simp: butlast_append)
  ultimately have 1: "chain ?g ?P" by (simp add: chain_upd)
  have "chain f ?N" using N by (cases ?N) auto
  moreover have "Ptr a \<notin> set (butlast ?N)" using assms(2) by (auto simp: butlast_append)
  moreover have "?p \<notin> set (butlast ?N)" using assms(2)
    by (cases ys rule: rev_cases) (auto simp: butlast_append)
  ultimately have 2: "chain ?g ?N" by (simp add: chain_upd)
  have 3: "?g ?p = ?n" using pa by simp
  have "chain ?g (?P @ ?N)"
    using 1 2 3 by (subst chain_join) simp_all
  then show ?thesis by (simp add: cyc_def)
qed

lemma cyc_link:
  assumes "cyc f (ys @ zs)" "distinct (ys @ zs)" "a \<notin> set (ys @ zs)"
  shows "cyc (f(Ptr a := hd (map Ptr zs @ [Root]), last (Root # map Ptr ys) := Ptr a)) (ys @ a # zs)"
proof -
  let ?P = "Root # map Ptr ys" and ?N = "map Ptr zs @ [Root]"
  let ?p = "last ?P" and ?n = "hd ?N"
  let ?g = "f(Ptr a := ?n, ?p := Ptr a)"
  have PN: "chain f (?P @ ?N)" using assms(1) by (simp add: cyc_def)
  have "chain f ?P \<and> f (last ?P) = hd ?N \<and> chain f ?N"
    using PN by (subst (asm) chain_join) simp_all
  then have P: "chain f ?P" and N: "chain f ?N" by blast+
  have pa: "?p \<noteq> Ptr a" using assms(3) by (cases ys rule: rev_cases) auto
  have "Ptr a \<notin> set (butlast ?P)" using assms(3) by (auto dest: in_set_butlastD)
  moreover have "?p \<notin> set (butlast ?P)" using assms(2)
    by (cases ys rule: rev_cases) (auto simp: butlast_append)
  ultimately have 1: "chain ?g ?P" using P by (simp add: chain_upd)
  have "Ptr a \<notin> set (butlast ?N)" using assms(3) by (auto simp: butlast_append)
  moreover have "?p \<notin> set (butlast ?N)" using assms(2)
    by (cases ys rule: rev_cases) (auto simp: butlast_append)
  ultimately have 2: "chain ?g ?N" using N by (simp add: chain_upd)
  have 3: "?g ?p = Ptr a" by simp
  have 4: "?g (Ptr a) = ?n" using pa by simp
  have "chain ?g (?P @ [Ptr a])" using 1 3 by (subst chain_snoc_iff) simp_all
  moreover have "chain ?g (Ptr a # ?N)" using 2 4 by (subst chain_Cons_iff) simp_all
  ultimately show ?thesis by (simp add: cyc_split)
qed

lemma cyc_next: "cyc f (ys @ a # zs) \<Longrightarrow> f (Ptr a) = hd (map Ptr zs @ [Root])"
  by (simp add: cyc_split chain_Cons_iff del: chain.simps)

lemma cyc_prev: "cyc f (ys @ a # zs) \<Longrightarrow> f (last (Root # map Ptr ys)) = Ptr a"
  using chain_last [of f "Root # map Ptr ys" "Ptr a"] by (simp add: cyc_split del: chain.simps)

lemmas view_defs = nextf_def prevf_def listf_def keyf_def valf_def expf_def bktf_def valid_def
  put_cell_def put_next_def put_prev_def

lemma get_next_valid [simp]: "valid l r \<Longrightarrow> get_next l r = Some (nextf l r)"
  and get_prev_valid [simp]: "valid l r \<Longrightarrow> get_prev l r = Some (prevf l r)"
  and set_next_valid [simp]: "valid l r \<Longrightarrow> set_next r v l = Some (put_next r v l)"
  and set_prev_valid [simp]: "valid l r \<Longrightarrow> set_prev r v l = Some (put_prev r v l)"
  by (auto simp: view_defs heap_defs split: ref.splits option.splits)

lemma get_field_valid [simp]:
  "valid l (Ptr a) \<Longrightarrow> get_list l (Ptr a) = Some (listf l a)"
  "valid l (Ptr a) \<Longrightarrow> get_Key l (Ptr a) = Some (keyf l a)"
  "valid l (Ptr a) \<Longrightarrow> get_Value l (Ptr a) = Some (valf l a)"
  "valid l (Ptr a) \<Longrightarrow> get_ExpiresAt l (Ptr a) = Some (expf l a)"
  "valid l (Ptr a) \<Longrightarrow> get_Bucket l (Ptr a) = Some (bktf l a)"
  by (auto simp: view_defs heap_defs split: ref.splits option.splits)

lemma set_field_valid [simp]:
  "valid l (Ptr a) \<Longrightarrow> set_list (Ptr a) b l = Some (put_cell (Ptr a) (\<lambda>e. e\<lparr>e_list := b\<rparr>) l)"
  "valid l (Ptr a) \<Longrightarrow> set_Value (Ptr a) v l = Some (put_cell (Ptr a) (\<lambda>e. e\<lparr>Value := v\<rparr>) l)"
  "valid l (Ptr a) \<Longrightarrow> set_ExpiresAt (Ptr a) t l = Some (put_cell (Ptr a) (\<lambda>e. e\<lparr>ExpiresAt := t\<rparr>) l)"
  "valid l (Ptr a) \<Longrightarrow> set_Bucket (Ptr a) n l = Some (put_cell (Ptr a) (\<lambda>e. e\<lparr>Bucket := n\<rparr>) l)"
  by (auto simp: view_defs heap_defs split: ref.splits option.splits)

lemma put_next_view [simp]:
  "valid l r \<Longrightarrow> nextf (put_next r v l) = (nextf l)(r := v)"
  "prevf (put_next r v l) = prevf l"
  "listf (put_next r v l) = listf l"
  "keyf (put_next r v l) = keyf l"
  "valf (put_next r v l) = valf l"
  "expf (put_next r v l) = expf l"
  "bktf (put_next r v l) = bktf l"
  "valid (put_next r v l) = valid l"
  "len (put_next r v l) = len l"
  "fresh (put_next r v l) = fresh l"
  "dom (cells (put_next r v l)) = dom (cells l)"
  by (auto simp: view_defs heap_defs fun_eq_iff split: ref.splits option.splits)

lemma put_prev_view [simp]:
  "valid l r \<Longrightarrow> prevf (put_prev r v l) = (prevf l)(r := v)"
  "nextf (put_prev r v l) = nextf l"
  "listf (put_prev r v l) = listf l"
  "keyf (put_prev r v l) = keyf l"
  "valf (put_prev r v l) = valf l"
  "expf (put_prev r v l) = expf l"
  "bktf (put_prev r v l) = bktf l"
  "valid (put_prev r v l) = valid l"
  "len (put_prev r v l) = len l"
  "fresh (put_prev r v l) = fresh l"
  "dom (cells (put_prev r v l)) = dom (cells l)"
  by (auto simp: view_defs heap_defs fun_eq_iff split: ref.splits option.splits)

lemma put_cell_frame [simp]:
  "valid (put_cell r g l) = valid l"
  "len (put_cell r g l) = len l"
  "fresh (put_cell r g l) = fresh l"
  "root_next (put_cell r g l) = root_next l"
  "root_prev (put_cell r g l) = root_prev l"
  "dom (cells (put_cell r g l)) = dom (cells l)"
  by (auto simp: view_defs heap_defs fun_eq_iff split: ref.splits option.splits)

lemma put_list_view [simp]:
  "nextf (put_cell (Ptr a) (\<lambda>e. e\<lparr>e_list := b\<rparr>) l) = nextf l"
  "prevf (put_cell (Ptr a) (\<lambda>e. e\<lparr>e_list := b\<rparr>) l) = prevf l"
  "valid l (Ptr a) \<Longrightarrow> listf (put_cell (Ptr a) (\<lambda>e. e\<lparr>e_list := b\<rparr>) l) = (listf l)(a := b)"
  "keyf (put_cell (Ptr a) (\<lambda>e. e\<lparr>e_list := b\<rparr>) l) = keyf l"
  "valf (put_cell (Ptr a) (\<lambda>e. e\<lparr>e_list := b\<rparr>) l) = valf l"
  "expf (put_cell (Ptr a) (\<lambda>e. e\<lparr>e_list := b\<rparr>) l) = expf l"
  "bktf (put_cell (Ptr a) (\<lambda>e. e\<lparr>e_list := b\<rparr>) l) = bktf l"
  by (auto simp: view_defs heap_defs fun_eq_iff split: ref.splits option.splits)

lemma put_Value_view [simp]:
  "nextf (put_cell (Ptr a) (\<lambda>e. e\<lparr>Value := v\<rparr>) l) = nextf l"
  "prevf (put_cell (Ptr a) (\<lambda>e. e\<lparr>Value := v\<rparr>) l) = prevf l"
  "listf (put_cell (Ptr a) (\<lambda>e. e\<lparr>Value := v\<rparr>) l) = listf l"
  "keyf (put_cell (Ptr a) (\<lambda>e. e\<lparr>Value := v\<rparr>) l) = keyf l"
  "valid l (Ptr a) \<Longrightarrow> valf (put_cell (Ptr a) (\<lambda>e. e\<lparr>Value := v\<rparr>) l) = (valf l)(a := v)"
  "expf (put_cell (Ptr a) (\<lambda>e. e\<lparr>Value := v\<rparr>) l) = expf l"
  "bktf (put_cell (Ptr a) (\<lambda>e. e\<lparr>Value := v\<rparr>) l) = bktf l"
  by (auto simp: view_defs heap_defs fun_eq_iff split: ref.splits option.splits)

lemma put_ExpiresAt_view [simp]:
  "nextf (put_cell (Ptr a) (\<lambda>e. e\<lparr>ExpiresAt := t\<rparr>) l) = nextf l"
  "prevf (put_cell (Ptr a) (\<lambda>e. e\<lparr>ExpiresAt := t\<rparr>) l) = prevf l"
  "listf (put_cell (Ptr a) (\<lambda>e. e\<lparr>ExpiresAt := t\<rparr>) l) = listf l"
  "keyf (put_cell (Ptr a) (\<lambda>e. e\<lparr>ExpiresAt := t\<rparr>) l) = keyf l"
  "valf (put_cell (Ptr a) (\<lambda>e. e\<lparr>ExpiresAt := t\<rparr>) l) = valf l"
  "valid l (Ptr a) \<Longrightarrow> expf (put_cell (Ptr a) (\<lambda>e. e\<lparr>ExpiresAt := t\<rparr>) l) = (expf l)(a := t)"
  "bktf (put_cell (Ptr a) (\<lambda>e. e\<lparr>ExpiresAt := t\<rparr>) l) = bktf l"
  by (auto simp: view_defs heap_defs fun_eq_iff split: ref.splits option.splits)

lemma put_Bucket_view [simp]:
  "nextf (put_cell (Ptr a) (\<lambda>e. e\<lparr>Bucket := n\<rparr>) l) = nextf l"
  "prevf (put_cell (Ptr a) (\<lambda>e. e\<lparr>Bucket := n\<rparr>) l) = prevf l"
  "listf (put_cell (Ptr a) (\<lambda>e. e\<lparr>Bucket := n\<rparr>) l) = listf l"
  "keyf (put_cell (Ptr a) (\<lambda>e. e\<lparr>Bucket := n\<rparr>) l) = keyf l"
  "valf (put_cell (Ptr a) (\<lambda>e. e\<lparr>Bucket := n\<rparr>) l) = valf l"
  "expf (put_cell (Ptr a) (\<lambda>e. e\<lparr>Bucket := n\<rparr>) l) = expf l"
  "valid l (Ptr a) \<Longrightarrow> bktf (put_cell (Ptr a) (\<lambda>e. e\<lparr>Bucket := n\<rparr>) l) = (bktf l)(a := n)"
  by (auto simp: view_defs heap_defs fun_eq_iff split: ref.splits option.splits)

lemma len_update_view [simp]:
  "nextf (l\<lparr>len := n\<rparr>) = nextf l"
  "prevf (l\<lparr>len := n\<rparr>) = prevf l"
  "listf (l\<lparr>len := n\<rparr>) = listf l"
  "keyf (l\<lparr>len := n\<rparr>) = keyf l"
  "valf (l\<lparr>len := n\<rparr>) = valf l"
  "expf (l\<lparr>len := n\<rparr>) = expf l"
  "bktf (l\<lparr>len := n\<rparr>) = bktf l"
  "valid (l\<lparr>len := n\<rparr>) = valid l"
  by (auto simp: view_defs heap_defs fun_eq_iff split: ref.splits option.splits)

lemma root_next_nextf: "root_next l = nextf l Root"
  and root_prev_prevf: "root_prev l = prevf l Root"
  by (simp_all add: view_defs heap_defs)

lemma valid_Root [simp]: "valid l Root"
  and valid_Null [simp]: "\<not> valid l Null"
  by (simp_all add: valid_def)

lemma ring_nextf_Root: "ring l xs \<Longrightarrow> nextf l Root = hd (map Ptr xs @ [Root])"
  by (cases xs) (auto simp: ring_def cyc_def)

lemma ring_prevf_Root: "ring l xs \<Longrightarrow> prevf l Root = last (Root # map Ptr xs)"
  by (cases xs rule: rev_cases) (auto simp: ring_def cyc_def)

lemma ring_Back: "ring l xs \<Longrightarrow> Back l = (if xs = [] then Null else Ptr (last xs))"
  using ring_prevf_Root [of l xs]
  by (auto simp: Back_def root_prev_prevf ring_def last_map)

lemma last_Root_rev: "last (Root # map Ptr (rev zs)) = hd (map Ptr zs @ [Root])"
  by (cases zs) auto

lemma hd_rev_Root: "hd (map Ptr (rev ys) @ [Root]) = last (Root # map Ptr ys)"
  by (cases ys rule: rev_cases) auto

lemma ring_Remove:
  assumes "ring l (ys @ a # zs)"
  shows "\<exists>l'. list_Remove (Ptr a) l = Some (valf l a, l') \<and> ring l' (ys @ zs) \<and>
           keyf l' = keyf l \<and> valf l' = valf l \<and> expf l' = expf l \<and> bktf l' = bktf l \<and>
           valid l' = valid l \<and> fresh l' = fresh l \<and> listf l' = (listf l)(a := False)"
proof -
  let ?p = "last (Root # map Ptr ys)" and ?n = "hd (map Ptr zs @ [Root])"
  let ?l' = "(put_cell (Ptr a) (\<lambda>e. e\<lparr>e_list := False\<rparr>)
               (put_prev (Ptr a) Null (put_next (Ptr a) Null
                 (put_prev ?n ?p (put_next ?p ?n l)))))\<lparr>len := len l - 1\<rparr>"
  from assms have d: "distinct (ys @ a # zs)" and va: "valid l (Ptr a)"
    and cn: "cyc (nextf l) (ys @ a # zs)" and cp: "cyc (prevf l) (rev zs @ a # rev ys)"
    and len: "len l = int (length (ys @ a # zs))"
    and vs: "\<forall>b \<in> set (ys @ zs). valid l (Ptr b) \<and> listf l b"
    and fr: "\<forall>a. valid l (Ptr a) \<longrightarrow> a < fresh l"
    by (auto simp: ring_def)
  have n: "nextf l (Ptr a) = ?n" using cyc_next [OF cn] .
  have p: "prevf l (Ptr a) = ?p" using cyc_next [OF cp] by (simp only: hd_rev_Root)
  have vp: "valid l ?p" using vs by (cases ys rule: rev_cases) (auto simp: valid_def)
  have vn: "valid l ?n" using vs by (cases zs) (auto simp: valid_def)
  have pa: "?p \<noteq> Ptr a" using d by (cases ys rule: rev_cases) auto
  have na: "?n \<noteq> Ptr a" using d by (cases zs) auto
  have run: "list_Remove (Ptr a) l = Some (valf l a, ?l')"
    using va vp vn n p pa na by (simp add: list_Remove_def)
  have nf: "nextf ?l' = (nextf l)(?p := ?n, Ptr a := Null)"
    using va vp vn by simp
  have pf: "prevf ?l' = (prevf l)(last (Root # map Ptr (rev zs)) := hd (map Ptr (rev ys) @ [Root]), Ptr a := Null)"
    using va vp vn by (simp add: last_Root_rev hd_rev_Root del: last.simps)
  have c1: "cyc (nextf ?l') (ys @ zs)"
    unfolding nf using cyc_unlink [OF cn d] .
  have d': "distinct (rev zs @ a # rev ys)" using d by auto
  have c2: "cyc (prevf ?l') (rev zs @ rev ys)"
    unfolding pf using cyc_unlink [OF cp d'] .
  have "ring ?l' (ys @ zs)"
    unfolding ring_def using c1 c2 d vs len fr va by auto
  moreover have "listf ?l' = (listf l)(a := False)" using va by simp
  ultimately show ?thesis using run by simp
qed

lemma ring_fresh: "ring l xs \<Longrightarrow> fresh l \<notin> set xs \<and> \<not> valid l (Ptr (fresh l))"
  by (auto simp: ring_def valid_def)

lemma ring_valid_hd: "ring l xs \<Longrightarrow> valid l (hd (map Ptr xs @ [Root]))"
  by (cases xs) (auto simp: ring_def valid_def)

lemma alloc_view [simp]:
  "\<not> valid l (Ptr (fresh l)) \<Longrightarrow> nextf (alloc k v t l) = nextf l"
  "\<not> valid l (Ptr (fresh l)) \<Longrightarrow> prevf (alloc k v t l) = prevf l"
  "\<not> valid l (Ptr (fresh l)) \<Longrightarrow> listf (alloc k v t l) = listf l"
  "keyf (alloc k v t l) = (keyf l)(fresh l := k)"
  "valf (alloc k v t l) = (valf l)(fresh l := v)"
  "expf (alloc k v t l) = (expf l)(fresh l := t)"
  "bktf (alloc k v t l) = (bktf l)(fresh l := 0)"
  "valid (alloc k v t l) = (valid l)(Ptr (fresh l) := True)"
  "len (alloc k v t l) = len l"
  "fresh (alloc k v t l) = Suc (fresh l)"
  "dom (cells (alloc k v t l)) = insert (fresh l) (dom (cells l))"
  by (auto simp: view_defs heap_defs alloc_def fun_eq_iff split: ref.splits option.splits)

lemma ring_insertValue:
  assumes "ring l xs"
  shows "\<exists>l'. insertValue k v t Root l = Some (Ptr (fresh l), l') \<and> ring l' (fresh l # xs) \<and>
           keyf l' = (keyf l)(fresh l := k) \<and> valf l' = (valf l)(fresh l := v) \<and>
           expf l' = (expf l)(fresh l := t) \<and> bktf l' = (bktf l)(fresh l := 0) \<and>
           valid l' = (valid l)(Ptr (fresh l) := True) \<and> fresh l' = Suc (fresh l)"
proof -
  let ?a = "fresh l" and ?n = "hd (map Ptr xs @ [Root])"
  let ?l0 = "alloc k v t l"
  let ?l' = "(put_cell (Ptr ?a) (\<lambda>e. e\<lparr>e_list := True\<rparr>)
               (put_prev ?n (Ptr ?a) (put_next Root (Ptr ?a) (put_next (Ptr ?a) ?n
                 (put_prev (Ptr ?a) Root ?l0)))))\<lparr>len := len l + 1\<rparr>"
  from assms have d: "distinct xs" and cn: "cyc (nextf l) xs" and cp: "cyc (prevf l) (rev xs)"
    and len: "len l = int (length xs)"
    and vs: "\<forall>b \<in> set xs. valid l (Ptr b) \<and> listf l b"
    and fr: "\<forall>a. valid l (Ptr a) \<longrightarrow> a < fresh l"
    by (auto simp: ring_def)
  note nv = ring_fresh [OF assms]
  have n: "nextf l Root = ?n" by (rule ring_nextf_Root [OF assms])
  have vn: "valid l ?n" by (rule ring_valid_hd [OF assms])
  have na: "?n \<noteq> Ptr ?a" using nv vn by auto
  have run: "insertValue k v t Root l = Some (Ptr ?a, ?l')"
    using nv n vn na
    by (simp add: insertValue_def alloc_def [symmetric] list_insert_def Let_def)
  have nf: "nextf ?l' = (nextf l)(Ptr ?a := hd (map Ptr xs @ [Root]), last (Root # map Ptr []) := Ptr ?a)"
    using nv vn by simp
  have pf: "prevf ?l' = (prevf l)(Ptr ?a := hd (map Ptr [] @ [Root]), last (Root # map Ptr (rev xs)) := Ptr ?a)"
    using nv vn by (simp add: last_Root_rev del: last.simps)
  have c1: "cyc (nextf ?l') ([] @ ?a # xs)"
    unfolding nf by (rule cyc_link) (use cn d nv in auto)
  have c2: "cyc (prevf ?l') (rev xs @ ?a # [])"
    unfolding pf by (rule cyc_link) (use cp d nv in auto)
  have "ring ?l' (?a # xs)"
    unfolding ring_def using c1 c2 d vs len fr nv vn
    by (auto simp: less_Suc_eq)
  then show ?thesis using run nv by simp
qed

lemma ring_NewList: "ring NewList []"
  by (simp add: ring_def NewList_def list_Init_def cyc_def view_defs heap_defs)

lemma ring_Init: "(\<forall>a. valid l (Ptr a) \<longrightarrow> a < fresh l) \<Longrightarrow> ring (list_Init l) []"
  by (simp add: ring_def list_Init_def cyc_def view_defs heap_defs)

lemma ring_lazyInit: "ring l xs \<Longrightarrow> lazyInit l = l"
  using ring_nextf_Root [of l xs] by (cases xs) (auto simp: lazyInit_def root_next_nextf)

lemma ring_PrevEntry:
  assumes "ring l (ys @ a # zs)"
  shows "PrevEntry l (Ptr a) = Some (if ys = [] then Null else Ptr (last ys))"
proof -
  from assms have va: "valid l (Ptr a)" "listf l a" and cp: "cyc (prevf l) (rev zs @ a # rev ys)"
    by (auto simp: ring_def)
  have "prevf l (Ptr a) = last (Root # map Ptr ys)"
    using cyc_next [OF cp] by (simp only: hd_rev_Root)
  then show ?thesis using va by (cases ys rule: rev_cases) (auto simp: PrevEntry_def)
qed

lemma ring_MoveToFront:
  assumes "ring l (ys @ a # zs)"
  shows "\<exists>l'. MoveToFront (Ptr a) l = Some l' \<and> ring l' (a # ys @ zs) \<and>
           keyf l' = keyf l \<and> valf l' = valf l \<and> expf l' = expf l \<and> bktf l' = bktf l \<and>
           valid l' = valid l \<and> fresh l' = fresh l"
proof (cases "ys = []")
  case True
  then have "nextf l Root = Ptr a" using ring_nextf_Root [OF assms] by simp
  moreover have "valid l (Ptr a)" using assms by (auto simp: ring_def)
  ultimately show ?thesis using assms True by (simp add: MoveToFront_def root_next_nextf)
next
  case False
  let ?p = "last (Root # map Ptr ys)" and ?n = "hd (map Ptr zs @ [Root])"
  let ?f = "hd (map Ptr (ys @ zs) @ [Root])"
  let ?l' = "put_prev ?f (Ptr a) (put_next Root (Ptr a) (put_next (Ptr a) ?f
               (put_prev (Ptr a) Root (put_prev ?n ?p (put_next ?p ?n l)))))"
  from assms have d: "distinct (ys @ a # zs)" and va: "valid l (Ptr a)" and la: "listf l a"
    and cn: "cyc (nextf l) (ys @ a # zs)" and cp: "cyc (prevf l) (rev zs @ a # rev ys)"
    and len: "len l = int (length (ys @ a # zs))"
    and vs: "\<forall>b \<in> set (ys @ zs). valid l (Ptr b) \<and> listf l b"
    and fr: "\<forall>a. valid l (Ptr a) \<longrightarrow> a < fresh l"
    by (auto simp: ring_def)
  have n: "nextf l (Ptr a) = ?n" using cyc_next [OF cn] .
  have p: "prevf l (Ptr a) = ?p" using cyc_next [OF cp] by (simp only: hd_rev_Root)
  have vp: "valid l ?p" using vs by (cases ys rule: rev_cases) (auto simp: valid_def)
  have vn: "valid l ?n" using vs by (cases zs) (auto simp: valid_def)
  have vf: "valid l ?f" using vs False by (cases ys) (auto simp: valid_def)
  have pa: "?p \<noteq> Ptr a" using d by (cases ys rule: rev_cases) auto
  have na: "?n \<noteq> Ptr a" using d by (cases zs) auto
  have fa: "?f \<noteq> Ptr a" using d False by (cases ys) auto
  have pR: "?p \<noteq> Root" using False by (cases ys rule: rev_cases) auto
  have r: "nextf l Root = hd (map Ptr ys @ [Root])" "nextf l Root \<noteq> Ptr a"
    using ring_nextf_Root [OF assms] False d by (cases ys; auto)+
  have f: "?f = hd (map Ptr ys @ [Root])" using False by (cases ys) auto
  have run: "MoveToFront (Ptr a) l = Some ?l'"
    using va la vp vn vf n p pa na fa pR r False
    by (simp add: MoveToFront_def list_move_def root_next_nextf f)
  let ?f1 = "(nextf l)(?p := ?n, Ptr a := Null)"
  let ?g1 = "(prevf l)(last (Root # map Ptr (rev zs)) := hd (map Ptr (rev ys) @ [Root]), Ptr a := Null)"
  have d': "distinct (rev zs @ a # rev ys)" using d by auto
  have u1: "cyc ?f1 (ys @ zs)" by (rule cyc_unlink [OF cn d])
  have u2: "cyc ?g1 (rev zs @ rev ys)" by (rule cyc_unlink [OF cp d'])
  have c1: "cyc (?f1(Ptr a := hd (map Ptr (ys @ zs) @ [Root]), last (Root # map Ptr []) := Ptr a))
              ([] @ a # (ys @ zs))"
    by (rule cyc_link) (use u1 d in auto)
  have c2: "cyc (?g1(Ptr a := hd (map Ptr [] @ [Root]), last (Root # map Ptr (rev zs @ rev ys)) := Ptr a))
              ((rev zs @ rev ys) @ a # [])"
    by (rule cyc_link) (use u2 d in auto)
  have lf: "last (Root # map Ptr (rev zs @ rev ys)) = ?f"
    using last_Root_rev [of "ys @ zs"] by simp
  have nf: "nextf ?l' = ?f1(Ptr a := hd (map Ptr (ys @ zs) @ [Root]), last (Root # map Ptr []) := Ptr a)"
    using va vp vn vf pa pR by (auto simp: fun_eq_iff)
  have pf: "prevf ?l' = ?g1(Ptr a := hd (map Ptr [] @ [Root]), last (Root # map Ptr (rev zs @ rev ys)) := Ptr a)"
    unfolding lf last_Root_rev hd_rev_Root using va vp vn vf na fa by (auto simp: fun_eq_iff)
  have "ring ?l' (a # ys @ zs)"
    unfolding ring_def using c1 c2 d vs len fr va la unfolding nf [symmetric] pf [symmetric]
    by auto
  then show ?thesis using run by simp
qed

lemma ring_payload_cong:
  assumes "ring l xs" "nextf l' = nextf l" "prevf l' = prevf l" "listf l' = listf l"
    "valid l' = valid l" "len l' = len l" "fresh l' = fresh l"
  shows "ring l' xs"
  using assms by (simp add: ring_def)

lemma ring_valid: "ring l xs \<Longrightarrow> a \<in> set xs \<Longrightarrow> valid l (Ptr a)"
  by (simp add: ring_def)

lemma ring_distinct: "ring l xs \<Longrightarrow> distinct xs"
  by (simp add: ring_def)

lemma ring_len: "ring l xs \<Longrightarrow> len l = int (length xs)"
  by (simp add: ring_def)

lemma keys_loop_ring:
  assumes "ring l xs"
  shows "xs = ys @ zs \<Longrightarrow> length keys = length xs \<Longrightarrow>
         keys_loop l (if ys = [] then Null else Ptr (last ys)) (length zs) keys =
           Some (take (length zs) keys @ map (\<lambda>a. Some (keyf l a)) (rev ys))"
proof (induction ys arbitrary: zs keys rule: rev_induct)
  case Nil
  then show ?case by (simp add: keys_loop.simps)
next
  case (snoc a ys)
  have r: "ring l (ys @ a # zs)" using assms snoc.prems by simp
  have va: "valid l (Ptr a)" using ring_valid [OF r] by simp
  have pe: "PrevEntry l (Ptr a) = Some (if ys = [] then Null else Ptr (last ys))"
    by (rule ring_PrevEntry [OF r])
  have len: "length zs < length keys" using snoc.prems by simp
  have ih: "keys_loop l (if ys = [] then Null else Ptr (last ys)) (length (a # zs))
              (keys[length zs := Some (keyf l a)]) =
            Some (take (length (a # zs)) (keys[length zs := Some (keyf l a)]) @
                  map (\<lambda>a. Some (keyf l a)) (rev ys))"
    by (rule snoc.IH) (use snoc.prems in auto)
  have tk: "take (Suc (length zs)) (keys[length zs := Some (keyf l a)]) =
            take (length zs) keys @ [Some (keyf l a)]"
    using len by (simp add: take_Suc_conv_app_nth)
  show ?case
    using va pe len ih tk by (subst keys_loop.simps) simp
qed

lemma values_loop_ring:
  assumes "ring l xs"
  shows "xs = ys @ zs \<Longrightarrow> length vals = length xs \<Longrightarrow>
         values_loop l (if ys = [] then Null else Ptr (last ys)) (length zs) vals =
           Some (take (length zs) vals @ map (\<lambda>a. Some (valf l a)) (rev ys))"
proof (induction ys arbitrary: zs vals rule: rev_induct)
  case Nil
  then show ?case by (simp add: values_loop.simps)
next
  case (snoc a ys)
  have r: "ring l (ys @ a # zs)" using assms snoc.prems by simp
  have va: "valid l (Ptr a)" using ring_valid [OF r] by simp
  have pe: "PrevEntry l (Ptr a) = Some (if ys = [] then Null else Ptr (last ys))"
    by (rule ring_PrevEntry [OF r])
  have len: "length zs < length vals" using snoc.prems by simp
  have ih: "values_loop l (if ys = [] then Null else Ptr (last ys)) (length (a # zs))
              (vals[length zs := Some (valf l a)]) =
            Some (take (length (a # zs)) (vals[length zs := Some (valf l a)]) @
                  map (\<lambda>a. Some (valf l a)) (rev ys))"
    by (rule snoc.IH) (use snoc.prems in auto)
  have tk: "take (Suc (length zs)) (vals[length zs := Some (valf l a)]) =
            take (length zs) vals @ [Some (valf l a)]"
    using len by (simp add: take_Suc_conv_app_nth)
  show ?case
    using va pe len ih tk by (subst values_loop.simps) simp
qed

section \<open>The operations of the basic cache on the invariant\<close>

lemma index_ok_inj: "index_ok m l xs \<Longrightarrow> inj_on (keyf l) (set xs)"
  by (auto simp: index_ok_def inj_on_def) (metis option.inject ref.inject)

lemma index_ok_lookup:
  "index_ok m l xs \<Longrightarrow> m k = Some r \<Longrightarrow> \<exists>ys a zs. xs = ys @ a # zs \<and> r = Ptr a \<and> keyf l a = k"
  by (auto simp: index_ok_def) (metis split_list)

lemma index_ok_None: "index_ok m l xs \<Longrightarrow> m k = None \<Longrightarrow> k \<notin> keyf l ` set xs"
  by (auto simp: index_ok_def)

lemma index_ok_dom: "index_ok m l xs \<Longrightarrow> dom m = keyf l ` set xs"
  unfolding index_ok_def dom_def by (auto; blast)

lemma index_ok_remove:
  assumes "index_ok m l (ys @ a # zs)" "distinct (ys @ a # zs)" "keyf l' = keyf l"
  shows "index_ok (m(keyf l a := None)) l' (ys @ zs)"
proof -
  have inj: "inj_on (keyf l) (set (ys @ a # zs))" by (rule index_ok_inj [OF assms(1)])
  have ne: "\<forall>b \<in> set (ys @ zs). keyf l b \<noteq> keyf l a"
    using inj assms(2) by (auto simp: inj_on_def)
  show ?thesis
    using assms(1,3) ne unfolding index_ok_def by (auto split: if_splits)
qed

lemma index_ok_insert:
  assumes "index_ok m l xs" "m k = None" "a \<notin> set xs" "keyf l' = (keyf l)(a := k)"
  shows "index_ok (m(k \<mapsto> Ptr a)) l' (a # xs)"
  using assms unfolding index_ok_def by (auto split: if_splits; metis)

lemma index_ok_reorder:
  assumes "index_ok m l xs" "set xs' = set xs" "keyf l' = keyf l"
  shows "index_ok m l' xs'"
  using assms unfolding index_ok_def by auto

lemma lru_inv_NewLRU: "NewLRU sz cb = Inr s \<Longrightarrow> lru_inv s []"
  by (auto simp: NewLRU_def lru_inv_def ring_NewList index_ok_def split: if_splits)

lemma lru_removeEntry:
  assumes "lru_inv s (ys @ a # zs)"
  shows "\<exists>s'. removeEntry (Ptr a) s w =
             Some (s', cb_apply (onEvict s) (keyf (evictList s) a) (valf (evictList s) a) w) \<and>
           lru_inv s' (ys @ zs) \<and>
           keyf (evictList s') = keyf (evictList s) \<and> valf (evictList s') = valf (evictList s) \<and>
           valid (evictList s') = valid (evictList s) \<and>
           size_lru s' = size_lru s \<and> onEvict s' = onEvict s"
proof -
  from assms have r: "ring (evictList s) (ys @ a # zs)"
    and ix: "index_ok (entries s) (evictList s) (ys @ a # zs)" by (simp_all add: lru_inv_def)
  from ring_Remove [OF r] obtain l' where
    rm: "list_Remove (Ptr a) (evictList s) = Some (valf (evictList s) a, l')"
    and r': "ring l' (ys @ zs)" and k: "keyf l' = keyf (evictList s)"
    and v: "valf l' = valf (evictList s)" and va: "valid l' = valid (evictList s)"
    by blast
  have val: "valid l' (Ptr a)" using va ring_valid [OF r, of a] by simp
  let ?s' = "s\<lparr>evictList := l', entries := (entries s)(keyf (evictList s) a := None)\<rparr>"
  have "removeEntry (Ptr a) s w =
          Some (?s', cb_apply (onEvict s) (keyf (evictList s) a) (valf (evictList s) a) w)"
    using rm val k v by (simp add: removeEntry_def cb_apply_def split: option.splits)
  moreover have "lru_inv ?s' (ys @ zs)"
    using r' index_ok_remove [OF ix ring_distinct [OF r] k] by (simp add: lru_inv_def)
  ultimately show ?thesis using k v va by auto
qed

lemma lru_Back: "lru_inv s xs \<Longrightarrow> Back (evictList s) = (if xs = [] then Null else Ptr (last xs))"
  by (simp add: lru_inv_def ring_Back)

lemma lru_removeOldest:
  assumes "lru_inv s xs"
  shows "\<exists>s'. removeOldest s w =
             Some (s', if xs = [] then w
                       else cb_apply (onEvict s) (keyf (evictList s) (last xs))
                              (valf (evictList s) (last xs)) w) \<and>
           lru_inv s' (butlast xs) \<and>
           keyf (evictList s') = keyf (evictList s) \<and> valf (evictList s') = valf (evictList s) \<and>
           valid (evictList s') = valid (evictList s) \<and>
           size_lru s' = size_lru s \<and> onEvict s' = onEvict s"
proof (cases xs rule: rev_cases)
  case Nil
  then show ?thesis using assms lru_Back [OF assms] by (simp add: removeOldest_def)
next
  case (snoc ys a)
  then have "lru_inv s (ys @ a # [])" using assms by simp
  from lru_removeEntry [OF this, of w] show ?thesis
    using snoc lru_Back [OF assms] by (simp add: removeOldest_def)
qed

lemma lru_Add_hit:
  assumes "lru_inv s (ys @ a # zs)" "entries s key = Some (Ptr a)"
  shows "\<exists>s'. Add key val s w = Some (False, s', w) \<and> lru_inv s' (a # ys @ zs) \<and>
           keyf (evictList s') = keyf (evictList s) \<and>
           valf (evictList s') = (valf (evictList s))(a := val) \<and>
           size_lru s' = size_lru s \<and> onEvict s' = onEvict s \<and> entries s' = entries s"
proof -
  from assms have r: "ring (evictList s) (ys @ a # zs)"
    and ix: "index_ok (entries s) (evictList s) (ys @ a # zs)" by (simp_all add: lru_inv_def)
  from ring_MoveToFront [OF r] obtain l1 where
    mv: "MoveToFront (Ptr a) (evictList s) = Some l1" and r1: "ring l1 (a # ys @ zs)"
    and k: "keyf l1 = keyf (evictList s)" and v: "valf l1 = valf (evictList s)"
    by blast
  have va: "valid l1 (Ptr a)" using ring_valid [OF r1, of a] by simp
  let ?l2 = "put_cell (Ptr a) (\<lambda>e. e\<lparr>Value := val\<rparr>) l1"
  have r2: "ring ?l2 (a # ys @ zs)" by (rule ring_payload_cong [OF r1]) simp_all
  have "Add key val s w = Some (False, s\<lparr>evictList := ?l2\<rparr>, w)"
    using assms(2) mv va by (simp add: Add_def)
  moreover have "lru_inv (s\<lparr>evictList := ?l2\<rparr>) (a # ys @ zs)"
    using r2 index_ok_reorder [OF ix, of "a # ys @ zs" ?l2] k by (auto simp: lru_inv_def)
  ultimately show ?thesis using k v va by auto
qed

lemma lru_Add_miss:
  assumes "lru_inv s xs" "entries s key = None"
  shows "\<exists>s' a. a \<notin> set xs \<and>
           Add key val s w =
             Some (int (length xs) + 1 > size_lru s, s',
                   if int (length xs) + 1 > size_lru s
                   then cb_apply (onEvict s) (((keyf (evictList s))(a := key)) (last (a # xs)))
                          (((valf (evictList s))(a := val)) (last (a # xs))) w
                   else w) \<and>
           lru_inv s' (if int (length xs) + 1 > size_lru s then butlast (a # xs) else a # xs) \<and>
           keyf (evictList s') = (keyf (evictList s))(a := key) \<and>
           valf (evictList s') = (valf (evictList s))(a := val) \<and>
           size_lru s' = size_lru s \<and> onEvict s' = onEvict s"
proof -
  from assms have r: "ring (evictList s) xs"
    and ix: "index_ok (entries s) (evictList s) xs" by (simp_all add: lru_inv_def)
  let ?a = "fresh (evictList s)"
  from ring_insertValue [OF r, of key val 0] obtain l1 where
    ins: "insertValue key val 0 Root (evictList s) = Some (Ptr ?a, l1)"
    and r1: "ring l1 (?a # xs)" and k: "keyf l1 = (keyf (evictList s))(?a := key)"
    and v: "valf l1 = (valf (evictList s))(?a := val)"
    by blast
  have nin: "?a \<notin> set xs" using ring_fresh [OF r] by simp
  let ?s1 = "s\<lparr>evictList := l1, entries := (entries s)(key \<mapsto> Ptr ?a)\<rparr>"
  have inv1: "lru_inv ?s1 (?a # xs)"
    using r1 index_ok_insert [OF ix assms(2) nin k] by (simp add: lru_inv_def)
  have len1: "list_Len l1 = int (length xs) + 1" using ring_len [OF r1] by (simp add: list_Len_def)
  show ?thesis
  proof (cases "int (length xs) + 1 > size_lru s")
    case True
    from lru_removeOldest [OF inv1, of w] obtain s' where
      ro: "removeOldest ?s1 w = Some (s', cb_apply (onEvict s) (keyf l1 (last (?a # xs)))
                              (valf l1 (last (?a # xs))) w)"
      and inv': "lru_inv s' (butlast (?a # xs))"
      and fr: "keyf (evictList s') = keyf l1" "valf (evictList s') = valf l1"
        "valid (evictList s') = valid l1"
        "size_lru s' = size_lru s" "onEvict s' = onEvict s"
      by auto
    have "Add key val s w = Some (True, s', cb_apply (onEvict s) (keyf l1 (last (?a # xs)))
                              (valf l1 (last (?a # xs))) w)"
      using assms(2) ins ro True len1 ring_lazyInit [OF r]
      by (simp add: Add_def PushToFront_def Let_def)
    then show ?thesis using True inv' fr k v nin by (intro exI [of _ s'] exI [of _ ?a]) simp
  next
    case False
    have "Add key val s w = Some (False, ?s1, w)"
      using assms(2) ins False len1 ring_lazyInit [OF r]
      by (simp add: Add_def PushToFront_def Let_def)
    then show ?thesis using False inv1 k v nin by (intro exI [of _ ?s1] exI [of _ ?a]) simp
  qed
qed

lemma lru_Get_hit:
  assumes "lru_inv s (ys @ a # zs)" "entries s key = Some (Ptr a)"
  shows "\<exists>s'. Get key s = Some (Some (valf (evictList s) a), s') \<and> lru_inv s' (a # ys @ zs) \<and>
           keyf (evictList s') = keyf (evictList s) \<and>
           valf (evictList s') = valf (evictList s) \<and>
           size_lru s' = size_lru s \<and> onEvict s' = onEvict s \<and> entries s' = entries s"
proof -
  from assms have r: "ring (evictList s) (ys @ a # zs)"
    and ix: "index_ok (entries s) (evictList s) (ys @ a # zs)" by (simp_all add: lru_inv_def)
  from ring_MoveToFront [OF r] obtain l1 where
    mv: "MoveToFront (Ptr a) (evictList s) = Some l1" and r1: "ring l1 (a # ys @ zs)"
    and k: "keyf l1 = keyf (evictList s)" and v: "valf l1 = valf (evictList s)"
    by blast
  have va: "valid l1 (Ptr a)" using ring_valid [OF r1, of a] by simp
  have "Get key s = Some (Some (valf (evictList s) a), s\<lparr>evictList := l1\<rparr>)"
    using assms(2) mv va v by (simp add: Get_def)
  moreover have "lru_inv (s\<lparr>evictList := l1\<rparr>) (a # ys @ zs)"
    using r1 index_ok_reorder [OF ix, of "a # ys @ zs" l1] k by (auto simp: lru_inv_def)
  ultimately show ?thesis using k v by auto
qed

lemma lru_Get_miss: "entries s key = None \<Longrightarrow> Get key s = Some (None, s)"
  by (simp add: Get_def)

lemma lru_Len: "lru_inv s xs \<Longrightarrow> Len s = int (length xs)"
  by (simp add: Len_def list_Len_def lru_inv_def ring_len)

lemma lru_Keys:
  assumes "lru_inv s xs"
  shows "Keys s = Some (map (\<lambda>a. Some (keyf (evictList s) a)) (rev xs))"
proof -
  from assms have r: "ring (evictList s) xs" by (simp add: lru_inv_def)
  have "keys_loop (evictList s) (if xs = [] then Null else Ptr (last xs)) (length ([]::nat list))
          (replicate (length xs) None) =
        Some (take (length ([]::nat list)) (replicate (length xs) None) @
              map (\<lambda>a. Some (keyf (evictList s) a)) (rev xs))"
    by (rule keys_loop_ring [OF r]) simp_all
  then show ?thesis
    using ring_len [OF r] ring_Back [OF r] by (simp add: Keys_def list_Len_def)
qed

lemma lru_Values:
  assumes "lru_inv s xs"
  shows "Values s = Some (map (\<lambda>a. Some (valf (evictList s) a)) (rev xs))"
proof -
  from assms have r: "ring (evictList s) xs" by (simp add: lru_inv_def)
  have "values_loop (evictList s) (if xs = [] then Null else Ptr (last xs)) (length ([]::nat list))
          (replicate (length xs) None) =
        Some (take (length ([]::nat list)) (replicate (length xs) None) @
              map (\<lambda>a. Some (valf (evictList s) a)) (rev xs))"
    by (rule values_loop_ring [OF r]) simp_all
  then show ?thesis
    using ring_len [OF r] ring_Back [OF r] by (simp add: Values_def list_Len_def)
qed

lemma lru_Contains: "lru_inv s xs \<Longrightarrow> Contains k s \<longleftrightarrow> k \<in> keyf (evictList s) ` set xs"
  using index_ok_dom [of "entries s" "evictList s" xs]
  by (auto simp: Contains_def lru_inv_def index_ok_def split: option.splits)

lemma lru_Peek_hit:
  "lru_inv s xs \<Longrightarrow> a \<in> set xs \<Longrightarrow>
   Peek (keyf (evictList s) a) s = Some (Some (valf (evictList s) a))"
  by (auto simp: Peek_def lru_inv_def index_ok_def ring_valid)

lemma lru_Peek_miss: "entries s k = None \<Longrightarrow> Peek k s = Some None"
  by (simp add: Peek_def)

lemma lru_GetOldest:
  "lru_inv s xs \<Longrightarrow>
   GetOldest s = Some (if xs = [] then None
                       else Some (keyf (evictList s) (last xs), valf (evictList s) (last xs)))"
  using ring_valid [of "evictList s" xs "last xs"]
  by (auto simp: GetOldest_def lru_Back lru_inv_def)

lemma lru_Remove_hit:
  assumes "lru_inv s (ys @ a # zs)" "entries s key = Some (Ptr a)"
  shows "\<exists>s'. Remove key s w =
             Some (True, s', cb_apply (onEvict s) key (valf (evictList s) a) w) \<and>
           lru_inv s' (ys @ zs) \<and>
           keyf (evictList s') = keyf (evictList s) \<and> valf (evictList s') = valf (evictList s) \<and>
           valid (evictList s') = valid (evictList s) \<and>
           size_lru s' = size_lru s \<and> onEvict s' = onEvict s"
proof -
  have "keyf (evictList s) a = key"
    using assms by (auto simp: lru_inv_def index_ok_def)
  with lru_removeEntry [OF assms(1), of w] show ?thesis
    using assms(2) by (auto simp: Remove_def)
qed

lemma lru_Remove_miss: "entries s key = None \<Longrightarrow> Remove key s w = Some (False, s, w)"
  by (simp add: Remove_def)

lemma lru_RemoveOldest:
  assumes "lru_inv s xs"
  shows "\<exists>s'. RemoveOldest s w =
             Some (if xs = [] then None
                   else Some (keyf (evictList s) (last xs), valf (evictList s) (last xs)),
                   s',
                   if xs = [] then w
                   else cb_apply (onEvict s) (keyf (evictList s) (last xs))
                          (valf (evictList s) (last xs)) w) \<and>
           lru_inv s' (butlast xs) \<and>
           keyf (evictList s') = keyf (evictList s) \<and> valf (evictList s') = valf (evictList s) \<and>
           valid (evictList s') = valid (evictList s) \<and>
           size_lru s' = size_lru s \<and> onEvict s' = onEvict s"
proof (cases xs rule: rev_cases)
  case Nil
  then show ?thesis using assms lru_Back [OF assms] by (simp add: RemoveOldest_def)
next
  case (snoc ys a)
  then have i: "lru_inv s (ys @ a # [])" using assms by simp
  have va: "valid (evictList s) (Ptr a)"
    using assms snoc by (auto simp: lru_inv_def ring_valid)
  from lru_removeEntry [OF i, of w] obtain s' where
    re: "removeEntry (Ptr a) s w =
           Some (s', cb_apply (onEvict s) (keyf (evictList s) a) (valf (evictList s) a) w)"
    and inv': "lru_inv s' ys"
    and fr: "keyf (evictList s') = keyf (evictList s)" "valf (evictList s') = valf (evictList s)"
      "valid (evictList s') = valid (evictList s)"
      "size_lru s' = size_lru s" "onEvict s' = onEvict s"
    by auto
  have va': "valid (evictList s') (Ptr a)" using va fr by simp
  show ?thesis
    using snoc lru_Back [OF assms] re inv' fr va'
    by (simp add: RemoveOldest_def)
qed

lemma purge_loop_run:
  assumes "distinct ks" "\<forall>k \<in> set ks. \<exists>a. entries s k = Some (Ptr a) \<and> valid (evictList s) (Ptr a)"
  shows "purge_loop ks s w =
           Some (s\<lparr>entries := (\<lambda>k. if k \<in> set ks then None else entries s k)\<rparr>,
                 fold (\<lambda>k. cb_apply (onEvict s) k (valf (evictList s) (addr_of (entries s) k))) ks w)"
  using assms
proof (induction ks arbitrary: s w)
  case Nil
  then show ?case by simp
next
  case (Cons k ks)
  from Cons.prems obtain a where a: "entries s k = Some (Ptr a)" "valid (evictList s) (Ptr a)"
    by auto
  let ?s1 = "s\<lparr>entries := (entries s)(k := None)\<rparr>"
  let ?w1 = "cb_apply (onEvict s) k (valf (evictList s) a) w"
  have ih: "purge_loop ks ?s1 ?w1 =
           Some (?s1\<lparr>entries := (\<lambda>k. if k \<in> set ks then None else entries ?s1 k)\<rparr>,
                 fold (\<lambda>k. cb_apply (onEvict ?s1) k (valf (evictList ?s1) (addr_of (entries ?s1) k))) ks ?w1)"
    by (rule Cons.IH) (use Cons.prems in auto)
  have e: "(\<lambda>k'. if k' \<in> set ks then None else entries ?s1 k') =
           (\<lambda>k'. if k' \<in> set (k # ks) then None else entries s k')"
    by (auto simp: fun_eq_iff)
  have f: "fold (\<lambda>k. cb_apply (onEvict ?s1) k (valf (evictList ?s1) (addr_of (entries ?s1) k))) ks ?w1 =
           fold (\<lambda>k. cb_apply (onEvict s) k (valf (evictList s) (addr_of (entries s) k))) ks ?w1"
    by (rule fold_cong) (use Cons.prems in \<open>auto simp: addr_of_def\<close>)
  have step: "(case onEvict s of None \<Rightarrow> Some w
                | Some f \<Rightarrow> do { x \<leftarrow> get_Value (evictList s) (Ptr a); Some (f k x w) }) =
              Some ?w1"
    using a by (simp add: cb_apply_def split: option.splits)
  have ad: "addr_of (entries s) k = a" using a by (simp add: addr_of_def)
  show ?case
    using a(1) ih step ad unfolding e f by simp
qed

lemma lru_Purge:
  assumes "lru_inv s xs" "range_order (entries s) ks"
  shows "\<exists>s'. Purge ks s w =
             Some (s', fold (\<lambda>k. cb_apply (onEvict s) k (valf (evictList s) (addr_of (entries s) k))) ks w) \<and>
           lru_inv s' [] \<and> entries s' = Map.empty \<and>
           size_lru s' = size_lru s \<and> onEvict s' = onEvict s"
proof -
  from assms have r: "ring (evictList s) xs"
    and ix: "index_ok (entries s) (evictList s) xs" by (simp_all add: lru_inv_def)
  have d: "distinct ks" and dm: "set ks = dom (entries s)"
    using assms(2) by (simp_all add: range_order_def)
  have v: "\<forall>k \<in> set ks. \<exists>a. entries s k = Some (Ptr a) \<and> valid (evictList s) (Ptr a)"
    using dm ix ring_valid [OF r] by (auto simp: index_ok_def dom_def) blast
  have e: "(\<lambda>k. if k \<in> set ks then None else entries s k) = Map.empty"
    using dm by (auto simp: fun_eq_iff dom_def)
  have fr: "\<forall>a. valid (evictList s) (Ptr a) \<longrightarrow> a < fresh (evictList s)"
    using r by (simp add: ring_def)
  have "ring (list_Init (evictList s)) []" by (rule ring_Init [OF fr])
  then show ?thesis
    using purge_loop_run [OF d v, of w] e
    by (simp add: Purge_def lru_inv_def index_ok_def)
qed

lemma resize_loop_run:
  assumes "lru_inv s xs"
  shows "\<exists>s'. resize_loop i diff s w =
             Some (s', fold (\<lambda>a. cb_apply (onEvict s) (keyf (evictList s) a) (valf (evictList s) a))
                         (rev (drop (length xs - nat (diff - i)) xs)) w) \<and>
           lru_inv s' (take (length xs - nat (diff - i)) xs) \<and>
           keyf (evictList s') = keyf (evictList s) \<and> valf (evictList s') = valf (evictList s) \<and>
           valid (evictList s') = valid (evictList s) \<and>
           size_lru s' = size_lru s \<and> onEvict s' = onEvict s"
  using assms
proof (induction i diff s w arbitrary: xs rule: resize_loop.induct)
  case (1 i diff s w)
  show ?case
  proof (cases "i < diff")
    case False
    then show ?thesis using "1.prems" by (subst resize_loop.simps) simp
  next
    case True
    let ?w1 = "if xs = [] then w
               else cb_apply (onEvict s) (keyf (evictList s) (last xs)) (valf (evictList s) (last xs)) w"
    from lru_removeOldest [OF "1.prems", of w] obtain s1 where
      ro: "removeOldest s w = Some (s1, ?w1)" and inv1: "lru_inv s1 (butlast xs)"
      and fr: "keyf (evictList s1) = keyf (evictList s)" "valf (evictList s1) = valf (evictList s)"
        "valid (evictList s1) = valid (evictList s)"
        "size_lru s1 = size_lru s" "onEvict s1 = onEvict s"
      by auto
    from "1.IH" [OF True ro refl inv1] obtain s' where
      rl: "resize_loop (i + 1) diff s1 ?w1 =
             Some (s', fold (\<lambda>a. cb_apply (onEvict s1) (keyf (evictList s1) a) (valf (evictList s1) a))
                         (rev (drop (length (butlast xs) - nat (diff - (i + 1))) (butlast xs))) ?w1)"
      and inv': "lru_inv s' (take (length (butlast xs) - nat (diff - (i + 1))) (butlast xs))"
      and fr': "keyf (evictList s') = keyf (evictList s1)" "valf (evictList s') = valf (evictList s1)"
        "valid (evictList s') = valid (evictList s1)"
        "size_lru s' = size_lru s1" "onEvict s' = onEvict s1"
      by auto
    have n: "nat (diff - i) = Suc (nat (diff - (i + 1)))" using True by simp
    have tk: "take (length (butlast xs) - nat (diff - (i + 1))) (butlast xs) =
              take (length xs - nat (diff - i)) xs"
      unfolding n by (cases xs rule: rev_cases) auto
    have fd: "fold (\<lambda>a. cb_apply (onEvict s) (keyf (evictList s) a) (valf (evictList s) a))
                (rev (drop (length (butlast xs) - nat (diff - (i + 1))) (butlast xs))) ?w1 =
              fold (\<lambda>a. cb_apply (onEvict s) (keyf (evictList s) a) (valf (evictList s) a))
                (rev (drop (length xs - nat (diff - i)) xs)) w"
      unfolding n by (cases xs rule: rev_cases) (auto simp: Suc_diff_le)
    have "resize_loop i diff s w =
            Some (s', fold (\<lambda>a. cb_apply (onEvict s) (keyf (evictList s) a) (valf (evictList s) a))
                         (rev (drop (length xs - nat (diff - i)) xs)) w)"
      using True ro rl fr fd by (subst resize_loop.simps) simp
    then show ?thesis using inv' fr fr' tk by simp
  qed
qed

lemma lru_lookup:
  assumes "lru_inv s xs" "entries s key = Some r"
  obtains ys a zs where "xs = ys @ a # zs" "r = Ptr a" "keyf (evictList s) a = key"
  using index_ok_lookup [of "entries s" "evictList s" xs key r] assms
  by (auto simp: lru_inv_def)

lemma reachable_bounded: "reachable s \<Longrightarrow> \<exists>xs. bounded s xs"
proof (induction rule: reachable.induct)
  case (r_New sz cb s)
  then show ?case using lru_inv_NewLRU [of sz cb s] by (auto simp: bounded_def)
next
  case (r_Add s key val w ev s' w')
  then obtain xs where b: "lru_inv s xs" "size_lru s > 0 \<longrightarrow> int (length xs) \<le> size_lru s"
    by (auto simp: bounded_def)
  show ?case
  proof (cases "entries s key")
    case None
    from lru_Add_miss [OF b(1) None, of val w] r_Add.hyps(2) show ?thesis
      using b(2) unfolding bounded_def
      by (auto split: if_splits intro!: exI)
  next
    case (Some r)
    from lru_lookup [OF b(1) Some] obtain ys a zs where
      x: "xs = ys @ a # zs" "r = Ptr a" by metis
    from lru_Add_hit [of s ys a zs key val w] b x Some r_Add.hyps(2) show ?thesis
      unfolding bounded_def by (auto intro!: exI [of _ "a # ys @ zs"])
  qed
next
  case (r_Get s key r s')
  then obtain xs where b: "lru_inv s xs" "size_lru s > 0 \<longrightarrow> int (length xs) \<le> size_lru s"
    by (auto simp: bounded_def)
  show ?case
  proof (cases "entries s key")
    case None
    then show ?thesis using r_Get.hyps(2) b by (auto simp: lru_Get_miss bounded_def)
  next
    case (Some r)
    from lru_lookup [OF b(1) Some] obtain ys a zs where
      x: "xs = ys @ a # zs" "r = Ptr a" by metis
    from lru_Get_hit [of s ys a zs key] b x Some r_Get.hyps(2) show ?thesis
      unfolding bounded_def by (auto intro!: exI [of _ "a # ys @ zs"])
  qed
next
  case (r_Remove s key w ok s' w')
  then obtain xs where b: "lru_inv s xs" "size_lru s > 0 \<longrightarrow> int (length xs) \<le> size_lru s"
    by (auto simp: bounded_def)
  show ?case
  proof (cases "entries s key")
    case None
    then show ?thesis using r_Remove.hyps(2) b by (auto simp: lru_Remove_miss bounded_def)
  next
    case (Some r)
    from lru_lookup [OF b(1) Some] obtain ys a zs where
      x: "xs = ys @ a # zs" "r = Ptr a" by metis
    from lru_Remove_hit [of s ys a zs key w] b x Some r_Remove.hyps(2) show ?thesis
      unfolding bounded_def by (auto intro!: exI [of _ "ys @ zs"])
  qed
next
  case (r_RemoveOldest s w kv s' w')
  then obtain xs where b: "lru_inv s xs" "size_lru s > 0 \<longrightarrow> int (length xs) \<le> size_lru s"
    by (auto simp: bounded_def)
  from lru_RemoveOldest [OF b(1), of w] r_RemoveOldest.hyps(2) show ?case
    using b(2) unfolding bounded_def by (auto intro!: exI [of _ "butlast xs"])
next
  case (r_Purge s ks w s' w')
  then obtain xs where b: "lru_inv s xs" by (auto simp: bounded_def)
  from lru_Purge [OF b r_Purge.hyps(2), of w] r_Purge.hyps(3) show ?case
    unfolding bounded_def by (auto intro!: exI [of _ "[]"])
next
  case (r_Resize s sz w n s' w')
  then obtain xs where b: "lru_inv s xs" by (auto simp: bounded_def)
  let ?d = "if Len s - sz < 0 then 0 else Len s - sz"
  from resize_loop_run [OF b, of 0 ?d w] obtain s1 where
    rl: "resize_loop 0 ?d s w =
           Some (s1, fold (\<lambda>a. cb_apply (onEvict s) (keyf (evictList s) a) (valf (evictList s) a))
                         (rev (drop (length xs - nat (?d - 0)) xs)) w)"
    and inv1: "lru_inv s1 (take (length xs - nat (?d - 0)) xs)"
    by blast
  have s': "s' = s1\<lparr>size_lru := sz\<rparr>"
    using r_Resize.hyps(2) rl by (auto simp: Resize_def Let_def split: if_splits)
  have "lru_inv s' (take (length xs - nat (?d - 0)) xs)"
    using inv1 unfolding s' by (simp add: lru_inv_def)
  moreover have "sz > 0 \<longrightarrow> int (length (take (length xs - nat (?d - 0)) xs)) \<le> sz"
    using lru_Len [OF b] by auto
  ultimately show ?case unfolding bounded_def s' by (auto intro!: exI)
qed

section \<open>Running the examples; more facts about the basic cache\<close>

lemmas lru_defs = NewLRU_def Add_def Get_def Contains_def Peek_def Remove_def RemoveOldest_def
  GetOldest_def Keys_def Values_def Len_def Cap_def Purge_def Resize_def removeOldest_def
  removeEntry_def keys_loop.simps values_loop.simps

lemma ex0_new: "NewLRU 2 (Some log_evict) = Inr ex0"
  by (simp add: ex0_def NewLRU_def)

lemma ex1_add: "Add 1 10 ex0 [] = Some (False, ex1, [])"
  by (simp add: ex1_def ex0_def lru_defs list_defs heap_defs Let_def)

lemma ex2_add: "Add 2 20 ex1 [] = Some (False, ex2, [])"
  by (simp add: ex2_def ex1_def ex0_def lru_defs list_defs heap_defs Let_def)

lemma reachable_ex0: "reachable ex0"
  by (rule r_New [OF ex0_new])

lemma reachable_ex1: "reachable ex1"
  by (rule r_Add [OF reachable_ex0 ex1_add])

lemma reachable_ex2: "reachable ex2"
  by (rule r_Add [OF reachable_ex1 ex2_add])

lemma lru_Peek:
  assumes "lru_inv s xs"
  shows "Peek k s = Some (if entries s k = None then None
                          else Some (valf (evictList s) (addr_of (entries s) k)))"
proof (cases "entries s k")
  case None
  then show ?thesis by (simp add: Peek_def)
next
  case (Some r)
  from lru_lookup [OF assms Some] obtain ys a zs where
    x: "xs = ys @ a # zs" "r = Ptr a" by metis
  then have "valid (evictList s) (Ptr a)" using assms by (auto simp: lru_inv_def ring_valid)
  then show ?thesis using Some x by (simp add: Peek_def addr_of_def)
qed

lemma lru_addr_of:
  assumes "lru_inv s xs" "entries s k \<noteq> None"
  shows "entries s k = Some (Ptr (addr_of (entries s) k))"
    and "keyf (evictList s) (addr_of (entries s) k) = k"
    and "addr_of (entries s) k \<in> set xs"
proof -
  from assms(2) obtain r where r: "entries s k = Some r" by auto
  from lru_lookup [OF assms(1) r] obtain ys a zs where
    x: "xs = ys @ a # zs" "r = Ptr a" "keyf (evictList s) a = k" by metis
  show "entries s k = Some (Ptr (addr_of (entries s) k))"
    and "keyf (evictList s) (addr_of (entries s) k) = k"
    and "addr_of (entries s) k \<in> set xs"
    using r x by (simp_all add: addr_of_def)
qed

lemma filter_moved:
  assumes "inj_on f (set (ys @ a # zs))" "distinct (ys @ a # zs)"
  shows "filter (\<lambda>k. k \<noteq> Some (f a)) (map (\<lambda>b. Some (f b)) (rev (ys @ a # zs))) =
         map (\<lambda>b. Some (f b)) (rev zs @ rev ys)"
proof -
  have "\<forall>b \<in> set (ys @ zs). f b \<noteq> f a" using assms by (auto simp: inj_on_def)
  then show ?thesis by (auto simp: filter_map comp_def filter_id_conv)
qed

section \<open>Adding absent keys\<close>

lemma contents_Keys: "lru_inv s xs \<Longrightarrow> Keys s = Some (map (\<lambda>kv. Some (fst kv)) (contents s xs))"
  by (simp add: lru_Keys contents_def comp_def)

lemma contents_Values: "lru_inv s xs \<Longrightarrow> Values s = Some (map (\<lambda>kv. Some (snd kv)) (contents s xs))"
  by (simp add: lru_Values contents_def comp_def)

lemma contents_Len: "lru_inv s xs \<Longrightarrow> Len s = int (length (contents s xs))"
  by (simp add: lru_Len contents_def)

lemma contents_keys: "fst ` set (contents s xs) = keyf (evictList s) ` set xs"
  by (auto simp: contents_def image_iff)

lemma rev_butlast_tl: "rev (butlast ys) = tl (rev ys)"
  by (cases ys rule: rev_cases) simp_all

lemma Add_miss_contents:
  assumes "lru_inv s xs" "key \<notin> fst ` set (contents s xs)"
  shows "\<exists>s' xs'. Add key val s w =
            Some (int (length xs) + 1 > size_lru s, s',
                  if int (length xs) + 1 > size_lru s
                  then cb_apply (onEvict s) (fst (hd (contents s xs @ [(key, val)])))
                         (snd (hd (contents s xs @ [(key, val)]))) w
                  else w) \<and>
          lru_inv s' xs' \<and>
          contents s' xs' = (if int (length xs) + 1 > size_lru s
                             then tl (contents s xs @ [(key, val)])
                             else contents s xs @ [(key, val)]) \<and>
          size_lru s' = size_lru s \<and> onEvict s' = onEvict s"
proof -
  have none: "entries s key = None"
    using assms lru_Contains [OF assms(1), of key]
    by (auto simp: contents_keys Contains_def split: option.splits)
  from lru_Add_miss [OF assms(1) none, of val w] obtain s' a where
    a: "a \<notin> set xs"
    and add: "Add key val s w =
             Some (int (length xs) + 1 > size_lru s, s',
                   if int (length xs) + 1 > size_lru s
                   then cb_apply (onEvict s) (((keyf (evictList s))(a := key)) (last (a # xs)))
                          (((valf (evictList s))(a := val)) (last (a # xs))) w
                   else w)"
    and inv': "lru_inv s' (if int (length xs) + 1 > size_lru s then butlast (a # xs) else a # xs)"
    and fr: "keyf (evictList s') = (keyf (evictList s))(a := key)"
      "valf (evictList s') = (valf (evictList s))(a := val)"
      "size_lru s' = size_lru s" "onEvict s' = onEvict s"
    by blast
  let ?f = "\<lambda>b. (((keyf (evictList s))(a := key)) b, ((valf (evictList s))(a := val)) b)"
  have m: "map ?f (rev xs) = contents s xs"
    using a by (auto simp: contents_def)
  have c1: "contents s' (a # xs) = contents s xs @ [(key, val)]"
    using m by (simp add: contents_def fr)
  have "contents s' (butlast (a # xs)) = tl (contents s' (a # xs))"
    by (simp only: contents_def rev_butlast_tl map_tl)
  then have c2: "contents s' (butlast (a # xs)) = tl (contents s xs @ [(key, val)])"
    using c1 by simp
  have "contents s' (a # xs) = map ?f (rev (a # xs))" by (simp add: contents_def fr)
  then have "hd (contents s' (a # xs)) = ?f (last (a # xs))"
    by (metis hd_map hd_rev list.distinct(1) rev_is_Nil_conv)
  then have h: "?f (last (a # xs)) = hd (contents s xs @ [(key, val)])"
    unfolding c1 by simp
  have h1: "((keyf (evictList s))(a := key)) (last (a # xs)) =
              fst (hd (contents s xs @ [(key, val)]))"
    and h2: "((valf (evictList s))(a := val)) (last (a # xs)) =
              snd (hd (contents s xs @ [(key, val)]))"
    using h [symmetric] by simp_all
  show ?thesis
    apply (rule exI [of _ s'])
    apply (rule exI [of _ "if int (length xs) + 1 > size_lru s then butlast (a # xs) else a # xs"])
    using add inv' fr c1 c2 unfolding h1 h2
    by (simp del: butlast.simps last.simps)
qed

lemma holds_Add_miss:
  assumes "holds s old" "key \<notin> fst ` set old"
  shows "\<exists>s'. Add key val s w =
            Some (int (length old) + 1 > size_lru s, s',
                  if int (length old) + 1 > size_lru s
                  then cb_apply (onEvict s) (fst (hd (old @ [(key, val)])))
                         (snd (hd (old @ [(key, val)]))) w
                  else w) \<and>
          holds s' (if int (length old) + 1 > size_lru s
                    then tl (old @ [(key, val)]) else old @ [(key, val)]) \<and>
          size_lru s' = size_lru s \<and> onEvict s' = onEvict s"
proof -
  from assms obtain xs where inv: "lru_inv s xs" and c: "contents s xs = old"
    by (auto simp: holds_def)
  have l: "length old = length xs" using c by (auto simp: contents_def)
  from Add_miss_contents [OF inv, of key val w] assms(2) c l show ?thesis
    unfolding holds_def by (auto simp del: hd_append tl_append2)
qed

lemma map_upt_Suc0: "map f [0..<Suc n] = f 0 # map (\<lambda>i. f (Suc i)) [0..<n]"
  by (simp add: map_upt_Suc del: upt_Suc)

lemma add_all_run:
  assumes "holds s old" "size_lru s = c" "0 < c" "int (length old) \<le> c"
    "distinct (map fst kvs)" "fst ` set kvs \<inter> fst ` set old = {}"
  shows "\<exists>s'. add_all kvs s w =
            Some (map (\<lambda>i. c \<le> int (length old + i)) [0..<length kvs], s',
                  fold (\<lambda>kv. cb_apply (onEvict s) (fst kv) (snd kv))
                    (take (length old + length kvs - nat c) (old @ kvs)) w) \<and>
          holds s' (drop (length old + length kvs - nat c) (old @ kvs)) \<and>
          size_lru s' = c \<and> onEvict s' = onEvict s"
  using assms
proof (induction kvs arbitrary: s old w)
  case Nil
  then show ?case by simp
next
  case (Cons kv kvs)
  let ?ev = "int (length old) + 1 > size_lru s"
  let ?old1 = "if ?ev then tl (old @ [kv]) else old @ [kv]"
  let ?w1 = "if ?ev then cb_apply (onEvict s) (fst (hd (old @ [kv]))) (snd (hd (old @ [kv]))) w else w"
  have nk: "fst kv \<notin> fst ` set old" using Cons.prems(6) by auto
  from holds_Add_miss [OF Cons.prems(1) nk, of "snd kv" w, unfolded prod.collapse]
  obtain s1 where
    add: "Add (fst kv) (snd kv) s w = Some (?ev, s1, ?w1)"
    and h1: "holds s1 ?old1" and fr: "size_lru s1 = size_lru s" "onEvict s1 = onEvict s"
    by blast
  have len1: "int (length ?old1) \<le> c" using Cons.prems(2,3,4) by auto
  have dj: "fst ` set kvs \<inter> fst ` set ?old1 = {}"
  proof -
    have "set ?old1 \<subseteq> set (old @ [kv])" by (auto dest: list.set_sel(2) [rotated])
    then have "fst ` set ?old1 \<subseteq> fst ` set old \<union> {fst kv}" by auto
    moreover have "fst ` set kvs \<inter> (fst ` set old \<union> {fst kv}) = {}"
      using Cons.prems(5,6) by auto
    ultimately show ?thesis by blast
  qed
  have sz1: "size_lru s1 = c" using fr Cons.prems(2) by simp
  have d1: "distinct (map fst kvs)" using Cons.prems(5) by simp
  from Cons.IH [OF h1 sz1 Cons.prems(3) len1 d1 dj, of ?w1]
  obtain s' where
    run: "add_all kvs s1 ?w1 =
            Some (map (\<lambda>i. c \<le> int (length ?old1 + i)) [0..<length kvs], s',
                  fold (\<lambda>kv. cb_apply (onEvict s1) (fst kv) (snd kv))
                    (take (length ?old1 + length kvs - nat c) (?old1 @ kvs)) ?w1)"
    and h': "holds s' (drop (length ?old1 + length kvs - nat c) (?old1 @ kvs))"
    and fr': "size_lru s' = c" "onEvict s' = onEvict s1"
    by blast
  show ?case
  proof (cases ?ev)
    case True
    then have lo: "nat c = length old" and ne: "old \<noteq> []"
      using Cons.prems(2,3,4) by auto
    obtain x old' where old: "old = x # old'" using ne by (cases old) auto
    have ceq: "c = 1 + int (length old')" using lo old Cons.prems(3) by simp
    have "add_all (kv # kvs) s w =
            Some (map (\<lambda>i. c \<le> int (length old + i)) [0..<length (kv # kvs)], s',
                  fold (\<lambda>kv. cb_apply (onEvict s) (fst kv) (snd kv))
                    (take (length old + length (kv # kvs) - nat c) (old @ kv # kvs)) w)"
      using True add run fr lo old ceq
      by (simp add: map_upt_Suc0 del: upt_Suc)
    moreover have "holds s' (drop (length old + length (kv # kvs) - nat c) (old @ kv # kvs))"
    proof -
      have i1: "length ?old1 + length kvs - nat c = length kvs"
        and i2: "length old + length (kv # kvs) - nat c = Suc (length kvs)"
        using True lo old by simp_all
      have "drop (length ?old1 + length kvs - nat c) (?old1 @ kvs) =
            drop (length old + length (kv # kvs) - nat c) (old @ kv # kvs)"
        unfolding i1 i2 using True old by (simp del: drop_append)
      then show ?thesis using h' by simp
    qed
    ultimately show ?thesis using fr fr' by auto
  next
    case False
    then have lo: "length old + 1 \<le> nat c"
      using Cons.prems(2,3) by auto
    have "add_all (kv # kvs) s w =
            Some (map (\<lambda>i. c \<le> int (length old + i)) [0..<length (kv # kvs)], s',
                  fold (\<lambda>kv. cb_apply (onEvict s) (fst kv) (snd kv))
                    (take (length old + length (kv # kvs) - nat c) (old @ kv # kvs)) w)"
      using False add run fr lo Cons.prems(2)
      by (simp add: map_upt_Suc0 algebra_simps del: upt_Suc)
    moreover have "holds s' (drop (length old + length (kv # kvs) - nat c) (old @ kv # kvs))"
    proof -
      have "drop (length ?old1 + length kvs - nat c) (?old1 @ kvs) =
            drop (length old + length (kv # kvs) - nat c) (old @ kv # kvs)"
        using False by (simp del: drop_append)
      then show ?thesis using h' by simp
    qed
    ultimately show ?thesis using fr fr' by auto
  qed
qed

lemma holds_New: "NewLRU c cb = Inr s \<Longrightarrow> holds s [] \<and> size_lru s = c \<and> 0 < c \<and> onEvict s = cb"
  using lru_inv_NewLRU [of c cb s]
  by (auto simp: holds_def contents_def NewLRU_def split: if_splits)

lemma holds_Keys: "holds s kvs \<Longrightarrow> Keys s = Some (map (\<lambda>kv. Some (fst kv)) kvs)"
  and holds_Values: "holds s kvs \<Longrightarrow> Values s = Some (map (\<lambda>kv. Some (snd kv)) kvs)"
  and holds_Len: "holds s kvs \<Longrightarrow> Len s = int (length kvs)"
  using contents_Keys contents_Values contents_Len by (fastforce simp: holds_def)+

section \<open>Reading and resizing\<close>

lemma reachable_holds: "reachable s \<Longrightarrow> \<exists>kvs. holds s kvs"
  using reachable_bounded [of s] by (auto simp: bounded_def holds_def)

lemma filter_moved_iff:
  assumes "inj_on f (set (ys @ a # zs))" "distinct (ys @ a # zs)"
  shows "map (\<lambda>b. Some (f b)) (rev zs @ rev ys) @ [Some (f a)] =
         map (\<lambda>b. Some (f b)) (rev (ys @ a # zs)) \<longleftrightarrow> ys = []"
proof (cases ys)
  case Nil
  then show ?thesis by simp
next
  case (Cons y ys')
  have l1: "last (map (\<lambda>b. Some (f b)) (rev zs @ rev ys) @ [Some (f a)]) = Some (f a)"
    by (rule last_snoc)
  have "map (\<lambda>b. Some (f b)) (rev (ys @ a # zs)) =
        map (\<lambda>b. Some (f b)) (rev zs @ a # rev ys') @ [Some (f y)]"
    using Cons by simp
  then have l2: "last (map (\<lambda>b. Some (f b)) (rev (ys @ a # zs))) = Some (f y)"
    by (simp only: last_snoc)
  have "f a \<noteq> f y" using assms Cons by (auto simp: inj_on_def)
  then show ?thesis using l1 l2 Cons by (metis list.distinct(1) option.inject)
qed

lemma holds_Resize:
  assumes "holds s kvs" "0 \<le> n"
  shows "\<exists>s'. Resize n s w =
            Some (max 0 (int (length kvs) - n), s',
                  fold (\<lambda>kv. cb_apply (onEvict s) (fst kv) (snd kv))
                    (take (length kvs - nat n) kvs) w) \<and>
          holds s' (drop (length kvs - nat n) kvs) \<and> size_lru s' = n \<and> onEvict s' = onEvict s"
proof -
  from assms obtain xs where inv: "lru_inv s xs" and c: "contents s xs = kvs"
    by (auto simp: holds_def)
  have l: "length kvs = length xs" using c by (auto simp: contents_def)
  define dd where "dd = (if Len s - n < 0 then 0 else Len s - n)"
  let ?m = "length xs - nat n"
  let ?kv = "\<lambda>a. (keyf (evictList s) a, valf (evictList s) a)"
  have d: "nat (dd - 0) = ?m" "dd = max 0 (int (length kvs) - n)"
    using lru_Len [OF inv] assms(2) l by (auto simp: dd_def)
  from resize_loop_run [OF inv, of 0 dd w] obtain s1 where
    rl0: "resize_loop 0 dd s w =
           Some (s1, fold (\<lambda>a. cb_apply (onEvict s) (keyf (evictList s) a) (valf (evictList s) a))
                         (rev (drop (length xs - nat (dd - 0)) xs)) w)"
    and inv0: "lru_inv s1 (take (length xs - nat (dd - 0)) xs)"
    and fr: "keyf (evictList s1) = keyf (evictList s)" "valf (evictList s1) = valf (evictList s)"
      "size_lru s1 = size_lru s" "onEvict s1 = onEvict s"
    by blast
  have rl: "resize_loop 0 dd s w =
           Some (s1, fold (\<lambda>a. cb_apply (onEvict s) (keyf (evictList s) a) (valf (evictList s) a))
                         (rev (drop (length xs - ?m) xs)) w)"
    and inv1: "lru_inv s1 (take (length xs - ?m) xs)"
    using rl0 inv0 unfolding d(1) by simp_all
  let ?s' = "s1\<lparr>size_lru := n\<rparr>"
  have tk: "take ?m kvs = map ?kv (rev (drop (length xs - ?m) xs))"
    unfolding c [symmetric] contents_def by (simp add: take_map take_rev)
  have fd: "fold (\<lambda>kv. cb_apply (onEvict s) (fst kv) (snd kv)) (take (length kvs - nat n) kvs) w =
            fold (\<lambda>a. cb_apply (onEvict s) (keyf (evictList s) a) (valf (evictList s) a))
                         (rev (drop (length xs - ?m) xs)) w"
    unfolding l tk by (simp add: fold_map comp_def)
  have run: "Resize n s w = Some (max 0 (int (length kvs) - n), ?s',
                  fold (\<lambda>kv. cb_apply (onEvict s) (fst kv) (snd kv))
                    (take (length kvs - nat n) kvs) w)"
  proof -
    have "Resize n s w = do { (l, w) \<leftarrow> resize_loop 0 dd s w; Some (dd, l\<lparr>size_lru := n\<rparr>, w) }"
      by (simp add: Resize_def Let_def dd_def)
    then show ?thesis unfolding fd using rl d(2) by simp
  qed
  have "contents ?s' (take (length xs - ?m) xs) = drop ?m kvs"
    unfolding c [symmetric] contents_def using fr by (simp add: rev_take drop_map)
  then have "holds ?s' (drop (length kvs - nat n) kvs)"
    using inv1 l unfolding holds_def lru_inv_def by auto
  then show ?thesis using run fr by auto
qed

section \<open>The operations of the expirable cache on the invariant\<close>

lemma bk_del_entries:
  "i < length bs \<Longrightarrow> j < length bs \<Longrightarrow>
   b_entries (bk_del i k bs ! j) = (if j = i then (b_entries (bs ! i))(k := None) else b_entries (bs ! j))"
  by (auto simp: bk_del_def)

lemma bk_add_entries:
  "i < length bs \<Longrightarrow> j < length bs \<Longrightarrow>
   b_entries (bk_add i k r t bs ! j) = (if j = i then (b_entries (bs ! i))(k \<mapsto> r) else b_entries (bs ! j))"
  by (auto simp: bk_add_def Let_def)

lemma bk_length [simp]: "length (bk_del i k bs) = length bs" "length (bk_add i k r t bs) = length bs"
  by (simp_all add: bk_del_def bk_add_def)

lemma removeFromBucket_run:
  assumes "valid (x_evictList s) (Ptr a)" "bktf (x_evictList s) a < length (x_buckets s)"
  shows "removeFromBucket (Ptr a) s =
           Some (s\<lparr>x_buckets := bk_del (bktf (x_evictList s) a) (keyf (x_evictList s) a) (x_buckets s)\<rparr>)"
  using assms by (simp add: removeFromBucket_def bk_del_def Let_def)

lemma addToBucket_run:
  assumes "valid (x_evictList s) (Ptr a)" "x_nextBucket s mod numBuckets < length (x_buckets s)"
  shows "addToBucket (Ptr a) s =
           Some (s\<lparr>x_evictList := put_cell (Ptr a) (\<lambda>e. e\<lparr>Bucket := x_nextBucket s mod numBuckets\<rparr>)
                                  (x_evictList s),
                  x_buckets := bk_add (x_nextBucket s mod numBuckets) (keyf (x_evictList s) a) (Ptr a)
                                 (expf (x_evictList s) a) (x_buckets s)\<rparr>)"
  using assms by (simp add: addToBucket_def bk_add_def Let_def)

lemma buckets_ok_cong:
  assumes "buckets_ok bs l xs" "\<forall>a \<in> set xs. keyf l' a = keyf l a \<and> bktf l' a = bktf l a"
    "set xs' = set xs"
  shows "buckets_ok bs l' xs'"
  unfolding buckets_ok_def
proof (intro conjI allI impI ballI)
  fix i k r assume "i < length bs" "b_entries (bs ! i) k = Some r"
  with assms(1) obtain a where "a \<in> set xs" "r = Ptr a" "keyf l a = k" "bktf l a = i"
    unfolding buckets_ok_def by blast
  then show "\<exists>a\<in>set xs'. r = Ptr a \<and> keyf l' a = k \<and> bktf l' a = i"
    using assms(2,3) by auto
next
  fix a assume "a \<in> set xs'"
  then have a: "a \<in> set xs" using assms(3) by simp
  then have "bktf l a < length bs" "b_entries (bs ! bktf l a) (keyf l a) = Some (Ptr a)"
    using assms(1) unfolding buckets_ok_def by auto
  then show "bktf l' a < length bs" "b_entries (bs ! bktf l' a) (keyf l' a) = Some (Ptr a)"
    using assms(2) a by auto
qed

lemma buckets_ok_entry:
  "buckets_ok bs l xs \<Longrightarrow> i < length bs \<Longrightarrow> b_entries (bs ! i) k = Some r \<Longrightarrow>
   \<exists>a \<in> set xs. r = Ptr a \<and> keyf l a = k \<and> bktf l a = i"
  unfolding buckets_ok_def by blast

lemma buckets_ok_cell:
  "buckets_ok bs l xs \<Longrightarrow> a \<in> set xs \<Longrightarrow>
   bktf l a < length bs \<and> b_entries (bs ! bktf l a) (keyf l a) = Some (Ptr a)"
  unfolding buckets_ok_def by blast

lemma buckets_ok_remove:
  assumes "buckets_ok bs l (ys @ a # zs)" "inj_on (keyf l) (set (ys @ a # zs))"
    "distinct (ys @ a # zs)"
  shows "buckets_ok (bk_del (bktf l a) (keyf l a) bs) l (ys @ zs)"
proof -
  have ia: "bktf l a < length bs" using buckets_ok_cell [OF assms(1), of a] by simp
  have ne: "\<forall>b \<in> set (ys @ zs). keyf l b \<noteq> keyf l a"
    using assms(2,3) by (auto simp: inj_on_def)
  show ?thesis
    unfolding buckets_ok_def
  proof (intro conjI allI impI ballI)
    fix i k r assume i: "i < length (bk_del (bktf l a) (keyf l a) bs)"
      and e: "b_entries (bk_del (bktf l a) (keyf l a) bs ! i) k = Some r"
    have il: "i < length bs" using i by simp
    have e': "(if i = bktf l a then (b_entries (bs ! bktf l a))(keyf l a := None)
               else b_entries (bs ! i)) k = Some r"
      using e bk_del_entries [OF ia il, of "keyf l a"] by simp
    then have e0: "b_entries (bs ! i) k = Some r" and nk: "\<not> (i = bktf l a \<and> k = keyf l a)"
      by (auto split: if_splits)
    from buckets_ok_entry [OF assms(1) il e0] obtain a' where
      a': "a' \<in> set (ys @ a # zs)" "r = Ptr a'" "keyf l a' = k" "bktf l a' = i" by blast
    then have "a' \<noteq> a" using nk by auto
    then have "a' \<in> set (ys @ zs)" using a'(1) by auto
    then show "\<exists>a\<in>set (ys @ zs). r = Ptr a \<and> keyf l a = k \<and> bktf l a = i"
      using a' by blast
  next
    fix b assume b: "b \<in> set (ys @ zs)"
    then have "b \<in> set (ys @ a # zs)" by auto
    from buckets_ok_cell [OF assms(1) this]
    have bl: "bktf l b < length bs" and be: "b_entries (bs ! bktf l b) (keyf l b) = Some (Ptr b)"
      by simp_all
    show "bktf l b < length (bk_del (bktf l a) (keyf l a) bs)" using bl by simp
    have "keyf l b \<noteq> keyf l a" using ne b by blast
    then show "b_entries (bk_del (bktf l a) (keyf l a) bs ! bktf l b) (keyf l b) = Some (Ptr b)"
      using be bk_del_entries [OF ia bl, of "keyf l a"] by auto
  qed
qed

lemma buckets_ok_add:
  assumes "buckets_ok bs l xs" "a \<notin> set xs" "keyf l a \<notin> keyf l ` set xs" "i < length bs"
    "keyf l' = keyf l" "bktf l' = (bktf l)(a := i)"
  shows "buckets_ok (bk_add i (keyf l a) (Ptr a) t bs) l' (a # xs)"
  unfolding buckets_ok_def
proof (intro conjI allI impI ballI)
  fix j k r assume j: "j < length (bk_add i (keyf l a) (Ptr a) t bs)"
    and e: "b_entries (bk_add i (keyf l a) (Ptr a) t bs ! j) k = Some r"
  show "\<exists>b\<in>set (a # xs). r = Ptr b \<and> keyf l' b = k \<and> bktf l' b = j"
  proof (cases "j = i \<and> k = keyf l a")
    case True
    then show ?thesis using e j assms(4,5,6) by (auto simp: bk_add_entries)
  next
    case False
    then have "b_entries (bs ! j) k = Some r"
      using e j assms(4) by (auto simp: bk_add_entries split: if_splits)
    with buckets_ok_entry [OF assms(1), of j k r] j obtain b where
      "b \<in> set xs" "r = Ptr b" "keyf l b = k" "bktf l b = j"
      by auto
    then show ?thesis using assms(2,5,6) by auto
  qed
next
  fix b assume b: "b \<in> set (a # xs)"
  show "bktf l' b < length (bk_add i (keyf l a) (Ptr a) t bs)"
    using b assms unfolding buckets_ok_def by auto
  show "b_entries (bk_add i (keyf l a) (Ptr a) t bs ! bktf l' b) (keyf l' b) = Some (Ptr b)"
  proof (cases "b = a")
    case True
    then show ?thesis using assms(4,5,6) by (simp add: bk_add_entries)
  next
    case False
    then have bx: "b \<in> set xs" using b by simp
    then have "bktf l b < length bs" "b_entries (bs ! bktf l b) (keyf l b) = Some (Ptr b)"
      "keyf l b \<noteq> keyf l a"
      using assms(1,3) unfolding buckets_ok_def by (auto simp: image_iff)
    then show ?thesis using False assms(4,5,6) by (auto simp: bk_add_entries)
  qed
qed

lemma x_frame_refl [simp]: "x_frame s s"
  by (simp add: x_frame_def)

lemma x_frame_trans: "x_frame s s1 \<Longrightarrow> x_frame s1 s2 \<Longrightarrow> x_frame s s2"
  by (simp add: x_frame_def)

lemma x_inv_inj: "x_inv s xs \<Longrightarrow> inj_on (keyf (x_evictList s)) (set xs)"
  by (auto simp: x_inv_def intro: index_ok_inj)

lemma x_lookup:
  assumes "x_inv s xs" "x_entries s key = Some r"
  obtains ys a zs where "xs = ys @ a # zs" "r = Ptr a" "keyf (x_evictList s) a = key"
  using index_ok_lookup [of "x_entries s" "x_evictList s" xs key r] assms
  by (auto simp: x_inv_def)

lemma x_removeEntry_run:
  assumes "x_inv s (ys @ a # zs)"
  shows "\<exists>s'. x_removeEntry (Ptr a) s w =
             Some (s', cb_apply (x_onEvict s) (keyf (x_evictList s) a) (valf (x_evictList s) a) w) \<and>
           x_inv s' (ys @ zs) \<and> x_frame s s' \<and>
           x_entries s' = (x_entries s)(keyf (x_evictList s) a := None) \<and>
           x_buckets s' = bk_del (bktf (x_evictList s) a) (keyf (x_evictList s) a) (x_buckets s)"
proof -
  let ?l = "x_evictList s"
  from assms have r: "ring ?l (ys @ a # zs)"
    and ix: "index_ok (x_entries s) ?l (ys @ a # zs)"
    and bk: "buckets_ok (x_buckets s) ?l (ys @ a # zs)"
    and nb: "length (x_buckets s) = numBuckets" "x_nextBucket s < numBuckets"
    by (simp_all add: x_inv_def)
  from ring_Remove [OF r] obtain l' where
    rm: "list_Remove (Ptr a) ?l = Some (valf ?l a, l')"
    and r': "ring l' (ys @ zs)" and k: "keyf l' = keyf ?l"
    and v: "valf l' = valf ?l" and e: "expf l' = expf ?l" and b: "bktf l' = bktf ?l"
    and va: "valid l' = valid ?l"
    by blast
  have val: "valid l' (Ptr a)" using va ring_valid [OF r, of a] by simp
  have ba: "bktf ?l a < length (x_buckets s)" using bk by (auto simp: buckets_ok_def)
  let ?s1 = "s\<lparr>x_evictList := l', x_entries := (x_entries s)(keyf ?l a := None)\<rparr>"
  let ?s' = "?s1\<lparr>x_buckets := bk_del (bktf ?l a) (keyf ?l a) (x_buckets s)\<rparr>"
  have rb: "removeFromBucket (Ptr a) ?s1 = Some ?s'"
    using removeFromBucket_run [of ?s1 a] val ba k b by simp
  have run: "x_removeEntry (Ptr a) s w =
          Some (?s', cb_apply (x_onEvict s) (keyf ?l a) (valf ?l a) w)"
    using rm val k v rb by (simp add: x_removeEntry_def cb_apply_def split: option.splits)
  have bk': "buckets_ok (bk_del (bktf ?l a) (keyf ?l a) (x_buckets s)) l' (ys @ zs)"
    by (rule buckets_ok_cong [OF buckets_ok_remove [OF bk x_inv_inj [OF assms] ring_distinct [OF r]]])
       (simp_all add: k b)
  have "x_inv ?s' (ys @ zs)"
    using r' index_ok_remove [OF ix ring_distinct [OF r] k] bk' nb by (simp add: x_inv_def)
  moreover have "x_frame s ?s'" using k v e b va by (simp add: x_frame_def)
  ultimately show ?thesis using run by auto
qed

lemma x_Back: "x_inv s xs \<Longrightarrow> Back (x_evictList s) = (if xs = [] then Null else Ptr (last xs))"
  by (simp add: x_inv_def ring_Back)

lemma x_removeOldest_run:
  assumes "x_inv s xs"
  shows "\<exists>s'. x_removeOldest s w =
             Some (s', if xs = [] then w
                       else cb_apply (x_onEvict s) (keyf (x_evictList s) (last xs))
                              (valf (x_evictList s) (last xs)) w) \<and>
           x_inv s' (butlast xs) \<and> x_frame s s'"
proof (cases xs rule: rev_cases)
  case Nil
  then show ?thesis using assms x_Back [OF assms] by (simp add: x_removeOldest_def)
next
  case (snoc ys a)
  then have "x_inv s (ys @ a # [])" using assms by simp
  from x_removeEntry_run [OF this, of w] show ?thesis
    using snoc x_Back [OF assms] by (auto simp: x_removeOldest_def)
qed

lemma x_inv_NewLRU: "x_inv (x_NewLRU sz cb ttl) []"
  by (simp add: x_NewLRU_def x_inv_def Let_def ring_NewList index_ok_def buckets_ok_def numBuckets_def)

lemma x_Add_hit:
  assumes "x_inv s (ys @ a # zs)" "x_entries s key = Some (Ptr a)"
  shows "\<exists>s'. x_Add key val now s w = Some (False, s', w) \<and> x_inv s' (a # ys @ zs) \<and>
           keyf (x_evictList s') = keyf (x_evictList s) \<and>
           valf (x_evictList s') = (valf (x_evictList s))(a := val) \<and>
           expf (x_evictList s') = (expf (x_evictList s))(a := now + x_ttl s) \<and>
           x_size s' = x_size s \<and> x_onEvict s' = x_onEvict s \<and> x_ttl s' = x_ttl s \<and>
           x_nextBucket s' = x_nextBucket s \<and> x_entries s' = x_entries s"
proof -
  let ?l = "x_evictList s" and ?bs = "x_buckets s" and ?nb = "x_nextBucket s mod numBuckets"
  from assms have r: "ring ?l (ys @ a # zs)"
    and ix: "index_ok (x_entries s) ?l (ys @ a # zs)"
    and bk: "buckets_ok ?bs ?l (ys @ a # zs)"
    and nb: "length ?bs = numBuckets" "x_nextBucket s < numBuckets"
    by (simp_all add: x_inv_def)
  from ring_MoveToFront [OF r] obtain l1 where
    mv: "MoveToFront (Ptr a) ?l = Some l1" and r1: "ring l1 (a # ys @ zs)"
    and k: "keyf l1 = keyf ?l" and v: "valf l1 = valf ?l" and e: "expf l1 = expf ?l"
    and b: "bktf l1 = bktf ?l" and va1: "valid l1 = valid ?l"
    by blast
  have va: "valid l1 (Ptr a)" using ring_valid [OF r1, of a] by simp
  have ba: "bktf ?l a < length ?bs" using bk by (auto simp: buckets_ok_def)
  have nbl: "?nb < length ?bs" using nb by simp
  let ?bs1 = "bk_del (bktf ?l a) (keyf ?l a) ?bs"
  let ?l3 = "put_cell (Ptr a) (\<lambda>e. e\<lparr>ExpiresAt := now + x_ttl s\<rparr>)
               (put_cell (Ptr a) (\<lambda>e. e\<lparr>Value := val\<rparr>) l1)"
  let ?l4 = "put_cell (Ptr a) (\<lambda>e. e\<lparr>Bucket := ?nb\<rparr>) ?l3"
  let ?bs2 = "bk_add ?nb (keyf ?l a) (Ptr a) (now + x_ttl s) ?bs1"
  let ?s' = "s\<lparr>x_evictList := ?l4, x_buckets := ?bs2\<rparr>"
  have rb: "removeFromBucket (Ptr a) (s\<lparr>x_evictList := l1\<rparr>) =
              Some (s\<lparr>x_evictList := l1, x_buckets := ?bs1\<rparr>)"
    using removeFromBucket_run [of "s\<lparr>x_evictList := l1\<rparr>" a] va ba k b by simp
  have ab: "addToBucket (Ptr a) (s\<lparr>x_buckets := ?bs1, x_evictList := ?l3\<rparr>) = Some ?s'"
    using addToBucket_run [of "s\<lparr>x_buckets := ?bs1, x_evictList := ?l3\<rparr>" a] va nbl k
    by simp
  have run: "x_Add key val now s w = Some (False, ?s', w)"
    using assms(2) mv va rb ab by (simp add: x_Add_def Let_def)
  have r4: "ring ?l4 (a # ys @ zs)" by (rule ring_payload_cong [OF r1]) simp_all
  have ix4: "index_ok (x_entries s) ?l4 (a # ys @ zs)"
    by (rule index_ok_reorder [OF ix]) (auto simp: k)
  have inj: "inj_on (keyf ?l) (set (ys @ a # zs))" by (rule x_inv_inj [OF assms(1)])
  have d: "distinct (ys @ a # zs)" by (rule ring_distinct [OF r])
  have b1: "buckets_ok ?bs1 ?l (ys @ zs)" by (rule buckets_ok_remove [OF bk inj d])
  have nk: "keyf ?l a \<notin> keyf ?l ` set (ys @ zs)" using inj d by (auto simp: inj_on_def)
  have b2: "buckets_ok ?bs2 ?l4 (a # ys @ zs)"
    by (rule buckets_ok_add [OF b1 _ nk]) (use d nbl k b va in \<open>auto simp: fun_eq_iff\<close>)
  have "x_inv ?s' (a # ys @ zs)" using r4 ix4 b2 nb by (simp add: x_inv_def)
  then show ?thesis using run k v e va by auto
qed

lemma x_Add_miss:
  assumes "x_inv s xs" "x_entries s key = None"
    and ev: "ev \<longleftrightarrow> x_size s > 0 \<and> int (length xs) + 1 > x_size s"
  shows "\<exists>s' a. a \<notin> set xs \<and>
           x_Add key val now s w =
             Some (ev, s',
                   if ev
                   then cb_apply (x_onEvict s) (((keyf (x_evictList s))(a := key)) (last (a # xs)))
                          (((valf (x_evictList s))(a := val)) (last (a # xs))) w
                   else w) \<and>
           x_inv s' (if ev then butlast (a # xs) else a # xs) \<and>
           keyf (x_evictList s') = (keyf (x_evictList s))(a := key) \<and>
           valf (x_evictList s') = (valf (x_evictList s))(a := val) \<and>
           expf (x_evictList s') = (expf (x_evictList s))(a := now + x_ttl s) \<and>
           x_size s' = x_size s \<and> x_onEvict s' = x_onEvict s \<and> x_ttl s' = x_ttl s \<and>
           x_nextBucket s' = x_nextBucket s"
proof -
  let ?l = "x_evictList s" and ?bs = "x_buckets s" and ?nb = "x_nextBucket s mod numBuckets"
  from assms have r: "ring ?l xs"
    and ix: "index_ok (x_entries s) ?l xs"
    and bk: "buckets_ok ?bs ?l xs"
    and nb: "length ?bs = numBuckets" "x_nextBucket s < numBuckets"
    by (simp_all add: x_inv_def)
  let ?a = "fresh ?l"
  from ring_insertValue [OF r, of key val "now + x_ttl s"] obtain l1 where
    ins: "insertValue key val (now + x_ttl s) Root ?l = Some (Ptr ?a, l1)"
    and r1: "ring l1 (?a # xs)" and k: "keyf l1 = (keyf ?l)(?a := key)"
    and v: "valf l1 = (valf ?l)(?a := val)" and e: "expf l1 = (expf ?l)(?a := now + x_ttl s)"
    and b: "bktf l1 = (bktf ?l)(?a := 0)"
    by blast
  have nin: "?a \<notin> set xs" using ring_fresh [OF r] by simp
  have va: "valid l1 (Ptr ?a)" using ring_valid [OF r1, of ?a] by simp
  have nbl: "?nb < length ?bs" using nb by simp
  let ?l2 = "put_cell (Ptr ?a) (\<lambda>e. e\<lparr>Bucket := ?nb\<rparr>) l1"
  let ?bs2 = "bk_add ?nb key (Ptr ?a) (now + x_ttl s) ?bs"
  let ?s2 = "s\<lparr>x_evictList := ?l2, x_entries := (x_entries s)(key \<mapsto> Ptr ?a), x_buckets := ?bs2\<rparr>"
  have ab: "addToBucket (Ptr ?a) (s\<lparr>x_evictList := l1, x_entries := (x_entries s)(key \<mapsto> Ptr ?a)\<rparr>)
              = Some ?s2"
    using addToBucket_run [of "s\<lparr>x_evictList := l1, x_entries := (x_entries s)(key \<mapsto> Ptr ?a)\<rparr>" ?a]
      va nbl k e by simp
  have r2: "ring ?l2 (?a # xs)" by (rule ring_payload_cong [OF r1]) simp_all
  have ix2: "index_ok ((x_entries s)(key \<mapsto> Ptr ?a)) ?l2 (?a # xs)"
    by (rule index_ok_insert [OF ix assms(2) nin]) (simp add: k)
  have nk: "key \<notin> keyf ?l ` set xs" by (rule index_ok_None [OF ix assms(2)])
  have b1: "buckets_ok ?bs l1 xs"
    by (rule buckets_ok_cong [OF bk]) (use nin k b in auto)
  have nk1: "keyf l1 ?a \<notin> keyf l1 ` set xs" using nk nin k by auto
  have "buckets_ok (bk_add ?nb (keyf l1 ?a) (Ptr ?a) (now + x_ttl s) ?bs) ?l2 (?a # xs)"
    by (rule buckets_ok_add [OF b1 nin nk1 nbl]) (use va in \<open>auto simp: fun_eq_iff\<close>)
  then have b2: "buckets_ok ?bs2 ?l2 (?a # xs)" using k by simp
  have inv2: "x_inv ?s2 (?a # xs)" using r2 ix2 b2 nb by (simp add: x_inv_def)
  have len2: "list_Len ?l2 = int (length xs) + 1" using ring_len [OF r2] by (simp add: list_Len_def)
  have pre: "x_Add key val now s w =
    (if ev then do { (l, w) \<leftarrow> x_removeOldest ?s2 w; Some (True, l, w) } else Some (False, ?s2, w))"
    using assms(2) ins ab len2 ring_lazyInit [OF r]
    by (simp add: x_Add_def PushToFrontExpirable_def Let_def ev)
  show ?thesis
  proof (cases ev)
    case True
    from x_removeOldest_run [OF inv2, of w] obtain s' where
      ro: "x_removeOldest ?s2 w = Some (s', cb_apply (x_onEvict s) (keyf ?l2 (last (?a # xs)))
                              (valf ?l2 (last (?a # xs))) w)"
      and inv': "x_inv s' (butlast (?a # xs))" and fr: "x_frame ?s2 s'"
      by auto
    have "x_Add key val now s w = Some (True, s', cb_apply (x_onEvict s) (keyf l1 (last (?a # xs)))
                              (valf l1 (last (?a # xs))) w)"
      using pre ro True by simp
    then show ?thesis using True inv' fr k v e nin
      by (intro exI [of _ s'] exI [of _ ?a]) (simp add: x_frame_def del: last.simps butlast.simps)
  next
    case False
    then show ?thesis using pre inv2 k v e nin
      by (intro exI [of _ ?s2] exI [of _ ?a]) (simp del: last.simps butlast.simps)
  qed
qed

lemma x_Get_expired:
  assumes "x_entries s key = Some (Ptr a)" "valid (x_evictList s) (Ptr a)"
    "expf (x_evictList s) a < now"
  shows "x_Get key now s = Some (None, s)" "x_Peek key now s = Some None"
  using assms by (simp_all add: x_Get_def x_Peek_def)

lemma x_Get_live:
  assumes "x_inv s (ys @ a # zs)" "x_entries s key = Some (Ptr a)"
    "\<not> expf (x_evictList s) a < now"
  shows "\<exists>s'. x_Get key now s = Some (Some (valf (x_evictList s) a), s') \<and>
           x_inv s' (a # ys @ zs) \<and> x_frame s s' \<and> x_entries s' = x_entries s"
proof -
  let ?l = "x_evictList s"
  from assms have r: "ring ?l (ys @ a # zs)"
    and ix: "index_ok (x_entries s) ?l (ys @ a # zs)"
    and bk: "buckets_ok (x_buckets s) ?l (ys @ a # zs)"
    and nb: "length (x_buckets s) = numBuckets" "x_nextBucket s < numBuckets"
    by (simp_all add: x_inv_def)
  from ring_MoveToFront [OF r] obtain l1 where
    mv: "MoveToFront (Ptr a) ?l = Some l1" and r1: "ring l1 (a # ys @ zs)"
    and k: "keyf l1 = keyf ?l" and v: "valf l1 = valf ?l" and e: "expf l1 = expf ?l"
    and b: "bktf l1 = bktf ?l" and va1: "valid l1 = valid ?l"
    by blast
  have va: "valid ?l (Ptr a)" using ring_valid [OF r, of a] by simp
  have "x_Get key now s = Some (Some (valf ?l a), s\<lparr>x_evictList := l1\<rparr>)"
    using assms(2,3) mv va va1 v by (simp add: x_Get_def)
  moreover have "x_inv (s\<lparr>x_evictList := l1\<rparr>) (a # ys @ zs)"
    using r1 index_ok_reorder [OF ix, of "a # ys @ zs" l1] k nb
      buckets_ok_cong [OF bk, of l1 "a # ys @ zs"] b
    by (auto simp: x_inv_def)
  moreover have "x_frame s (s\<lparr>x_evictList := l1\<rparr>)"
    using k v e b va1 by (simp add: x_frame_def)
  ultimately show ?thesis by auto
qed

lemma x_Get_miss: "x_entries s key = None \<Longrightarrow> x_Get key now s = Some (None, s)"
  by (simp add: x_Get_def)

lemma x_Remove_hit:
  assumes "x_inv s (ys @ a # zs)" "x_entries s key = Some (Ptr a)"
  shows "\<exists>s'. x_Remove key s w =
             Some (True, s', cb_apply (x_onEvict s) key (valf (x_evictList s) a) w) \<and>
           x_inv s' (ys @ zs) \<and> x_frame s s'"
proof -
  have "keyf (x_evictList s) a = key"
    using assms by (auto simp: x_inv_def index_ok_def)
  with x_removeEntry_run [OF assms(1), of w] show ?thesis
    using assms(2) by (auto simp: x_Remove_def)
qed

lemma x_Remove_miss: "x_entries s key = None \<Longrightarrow> x_Remove key s w = Some (False, s, w)"
  by (simp add: x_Remove_def)

lemma x_RemoveOldest_run:
  assumes "x_inv s xs"
  shows "\<exists>s'. x_RemoveOldest s w =
             Some (if xs = [] then None
                   else Some (keyf (x_evictList s) (last xs), valf (x_evictList s) (last xs)),
                   s',
                   if xs = [] then w
                   else cb_apply (x_onEvict s) (keyf (x_evictList s) (last xs))
                          (valf (x_evictList s) (last xs)) w) \<and>
           x_inv s' (butlast xs) \<and> x_frame s s'"
proof (cases xs rule: rev_cases)
  case Nil
  then show ?thesis using assms x_Back [OF assms] by (simp add: x_RemoveOldest_def)
next
  case (snoc ys a)
  then have i: "x_inv s (ys @ a # [])" using assms by simp
  have va: "valid (x_evictList s) (Ptr a)"
    using assms snoc by (auto simp: x_inv_def ring_valid)
  from x_removeEntry_run [OF i, of w] obtain s' where
    re: "x_removeEntry (Ptr a) s w =
           Some (s', cb_apply (x_onEvict s) (keyf (x_evictList s) a) (valf (x_evictList s) a) w)"
    and inv': "x_inv s' ys" and fr: "x_frame s s'"
    by auto
  have va': "valid (x_evictList s') (Ptr a)" using va fr by (simp add: x_frame_def)
  show ?thesis
    using snoc x_Back [OF assms] re inv' fr va'
    by (simp add: x_RemoveOldest_def x_frame_def)
qed

lemma x_Len: "x_inv s xs \<Longrightarrow> x_Len s = int (length xs)"
  by (simp add: x_Len_def list_Len_def x_inv_def ring_len)

lemma x_Len_card: "x_inv s xs \<Longrightarrow> x_Len s = int (card (dom (x_entries s)))"
proof -
  assume inv: "x_inv s xs"
  then have "dom (x_entries s) = keyf (x_evictList s) ` set xs"
    by (simp add: x_inv_def index_ok_dom)
  moreover have "card (keyf (x_evictList s) ` set xs) = card (set xs)"
    by (rule card_image [OF x_inv_inj [OF inv]])
  moreover have "card (set xs) = length xs"
    using inv ring_distinct [of "x_evictList s" xs] by (simp add: x_inv_def distinct_card)
  ultimately show ?thesis using x_Len [OF inv] by simp
qed

lemma x_GetOldest_run:
  "x_inv s xs \<Longrightarrow>
   x_GetOldest s = Some (if xs = [] then None
                       else Some (keyf (x_evictList s) (last xs), valf (x_evictList s) (last xs)))"
  using ring_valid [of "x_evictList s" xs "last xs"]
  by (auto simp: x_GetOldest_def x_Back x_inv_def)

lemma x_resize_loop_run:
  assumes "x_inv s xs"
  shows "\<exists>s'. x_resize_loop i diff s w =
             Some (s', fold (\<lambda>a. cb_apply (x_onEvict s) (keyf (x_evictList s) a) (valf (x_evictList s) a))
                         (rev (drop (length xs - nat (diff - i)) xs)) w) \<and>
           x_inv s' (take (length xs - nat (diff - i)) xs) \<and> x_frame s s'"
  using assms
proof (induction i diff s w arbitrary: xs rule: x_resize_loop.induct)
  case (1 i diff s w)
  show ?case
  proof (cases "i < diff")
    case False
    then show ?thesis using "1.prems" by (subst x_resize_loop.simps) simp
  next
    case True
    let ?w1 = "if xs = [] then w
               else cb_apply (x_onEvict s) (keyf (x_evictList s) (last xs)) (valf (x_evictList s) (last xs)) w"
    from x_removeOldest_run [OF "1.prems", of w] obtain s1 where
      ro: "x_removeOldest s w = Some (s1, ?w1)" and inv1: "x_inv s1 (butlast xs)"
      and fr: "x_frame s s1"
      by auto
    from "1.IH" [OF True ro refl inv1] obtain s' where
      rl: "x_resize_loop (i + 1) diff s1 ?w1 =
             Some (s', fold (\<lambda>a. cb_apply (x_onEvict s1) (keyf (x_evictList s1) a) (valf (x_evictList s1) a))
                         (rev (drop (length (butlast xs) - nat (diff - (i + 1))) (butlast xs))) ?w1)"
      and inv': "x_inv s' (take (length (butlast xs) - nat (diff - (i + 1))) (butlast xs))"
      and fr': "x_frame s1 s'"
      by auto
    have n: "nat (diff - i) = Suc (nat (diff - (i + 1)))" using True by simp
    have tk: "take (length (butlast xs) - nat (diff - (i + 1))) (butlast xs) =
              take (length xs - nat (diff - i)) xs"
      unfolding n by (cases xs rule: rev_cases) auto
    have fd: "fold (\<lambda>a. cb_apply (x_onEvict s) (keyf (x_evictList s) a) (valf (x_evictList s) a))
                (rev (drop (length (butlast xs) - nat (diff - (i + 1))) (butlast xs))) ?w1 =
              fold (\<lambda>a. cb_apply (x_onEvict s) (keyf (x_evictList s) a) (valf (x_evictList s) a))
                (rev (drop (length xs - nat (diff - i)) xs)) w"
      unfolding n by (cases xs rule: rev_cases) (auto simp: Suc_diff_le)
    have "x_resize_loop i diff s w =
            Some (s', fold (\<lambda>a. cb_apply (x_onEvict s) (keyf (x_evictList s) a) (valf (x_evictList s) a))
                         (rev (drop (length xs - nat (diff - i)) xs)) w)"
      using True ro rl fr fd by (subst x_resize_loop.simps) (simp add: x_frame_def)
    then show ?thesis using inv' x_frame_trans [OF fr fr'] tk by simp
  qed
qed

lemma x_purge_loop_run:
  assumes "distinct ks"
    "\<forall>k \<in> set ks. \<exists>a. x_entries s k = Some (Ptr a) \<and> valid (x_evictList s) (Ptr a)"
  shows "x_purge_loop ks s w =
           Some (s\<lparr>x_entries := (\<lambda>k. if k \<in> set ks then None else x_entries s k)\<rparr>,
                 fold (\<lambda>k. cb_apply (x_onEvict s) k (valf (x_evictList s) (addr_of (x_entries s) k))) ks w)"
  using assms
proof (induction ks arbitrary: s w)
  case Nil
  then show ?case by simp
next
  case (Cons k ks)
  from Cons.prems obtain a where a: "x_entries s k = Some (Ptr a)" "valid (x_evictList s) (Ptr a)"
    by auto
  let ?s1 = "s\<lparr>x_entries := (x_entries s)(k := None)\<rparr>"
  let ?w1 = "cb_apply (x_onEvict s) k (valf (x_evictList s) a) w"
  have ih: "x_purge_loop ks ?s1 ?w1 =
           Some (?s1\<lparr>x_entries := (\<lambda>k. if k \<in> set ks then None else x_entries ?s1 k)\<rparr>,
                 fold (\<lambda>k. cb_apply (x_onEvict ?s1) k (valf (x_evictList ?s1) (addr_of (x_entries ?s1) k))) ks ?w1)"
    by (rule Cons.IH) (use Cons.prems in auto)
  have e: "(\<lambda>k'. if k' \<in> set ks then None else x_entries ?s1 k') =
           (\<lambda>k'. if k' \<in> set (k # ks) then None else x_entries s k')"
    by (auto simp: fun_eq_iff)
  have f: "fold (\<lambda>k. cb_apply (x_onEvict ?s1) k (valf (x_evictList ?s1) (addr_of (x_entries ?s1) k))) ks ?w1 =
           fold (\<lambda>k. cb_apply (x_onEvict s) k (valf (x_evictList s) (addr_of (x_entries s) k))) ks ?w1"
    by (rule fold_cong) (use Cons.prems in \<open>auto simp: addr_of_def\<close>)
  have step: "(case x_onEvict s of None \<Rightarrow> Some w
                | Some f \<Rightarrow> do { x \<leftarrow> get_Value (x_evictList s) (Ptr a); Some (f k x w) }) =
              Some ?w1"
    using a by (simp add: cb_apply_def split: option.splits)
  have ad: "addr_of (x_entries s) k = a" using a by (simp add: addr_of_def)
  show ?case
    using a(1) ih step ad unfolding e f by simp
qed

lemma purge_bucket_run:
  assumes "\<forall>k r. b_entries b k = Some r \<longrightarrow> (\<exists>a. r = Ptr a \<and> valid el (Ptr a) \<and> keyf el a = k)"
  shows "purge_bucket el ks b =
           Some (b\<lparr>b_entries := (\<lambda>k. if k \<in> set ks then None else b_entries b k)\<rparr>)"
  using assms
proof (induction ks arbitrary: b)
  case Nil
  then show ?case by simp
next
  case (Cons k ks)
  show ?case
  proof (cases "b_entries b k")
    case None
    have "(\<lambda>k'. if k' \<in> set ks then None else b_entries b k') =
          (\<lambda>k'. if k' \<in> set (k # ks) then None else b_entries b k')"
      using None by (auto simp: fun_eq_iff)
    then show ?thesis using None Cons.IH [OF Cons.prems] by simp
  next
    case (Some r)
    with Cons.prems obtain a where a: "r = Ptr a" "valid el (Ptr a)" "keyf el a = k" by blast
    let ?b1 = "b\<lparr>b_entries := (b_entries b)(k := None)\<rparr>"
    have ih: "purge_bucket el ks ?b1 =
           Some (?b1\<lparr>b_entries := (\<lambda>k. if k \<in> set ks then None else b_entries ?b1 k)\<rparr>)"
      by (rule Cons.IH) (use Cons.prems in \<open>auto split: if_splits\<close>)
    have "(\<lambda>k'. if k' \<in> set ks then None else b_entries ?b1 k') =
          (\<lambda>k'. if k' \<in> set (k # ks) then None else b_entries b k')"
      by (auto simp: fun_eq_iff)
    then show ?thesis using Some a ih by simp
  qed
qed

lemma purge_buckets_run:
  assumes "list_all2 (\<lambda>b ks. range_order (b_entries b) ks) bs bks"
    "\<forall>b \<in> set bs. \<forall>k r. b_entries b k = Some r \<longrightarrow>
        (\<exists>a. r = Ptr a \<and> valid el (Ptr a) \<and> keyf el a = k)"
  shows "purge_buckets el bks bs = Some (map (\<lambda>b. b\<lparr>b_entries := Map.empty\<rparr>) bs)"
  using assms
proof (induction bs arbitrary: bks)
  case Nil
  then show ?case by simp
next
  case (Cons b bs)
  from Cons.prems(1) obtain ks bks' where bks: "bks = ks # bks'"
    and ro: "range_order (b_entries b) ks"
    and rest: "list_all2 (\<lambda>b ks. range_order (b_entries b) ks) bs bks'"
    by (auto simp: list_all2_Cons1)
  have "(\<lambda>k. if k \<in> set ks then None else b_entries b k) = Map.empty"
    using ro by (auto simp: range_order_def fun_eq_iff dom_def)
  then have pb: "purge_bucket el ks b = Some (b\<lparr>b_entries := Map.empty\<rparr>)"
    using purge_bucket_run [of b el ks] Cons.prems(2) by simp
  have "purge_buckets el bks' bs = Some (map (\<lambda>b. b\<lparr>b_entries := Map.empty\<rparr>) bs)"
    by (rule Cons.IH [OF rest]) (use Cons.prems(2) in auto)
  then show ?case using pb bks by simp
qed

lemma x_Purge_run:
  assumes "x_inv s xs" "range_order (x_entries s) ks"
    "list_all2 (\<lambda>b ks. range_order (b_entries b) ks) (x_buckets s) bks"
  shows "\<exists>s'. x_Purge ks bks s w =
             Some (s', fold (\<lambda>k. cb_apply (x_onEvict s) k
                                   (valf (x_evictList s) (addr_of (x_entries s) k))) ks w) \<and>
           x_inv s' [] \<and> x_entries s' = Map.empty \<and>
           (\<forall>b \<in> set (x_buckets s'). b_entries b = Map.empty) \<and>
           x_size s' = x_size s \<and> x_onEvict s' = x_onEvict s \<and> x_ttl s' = x_ttl s \<and>
           x_nextBucket s' = x_nextBucket s"
proof -
  let ?l = "x_evictList s"
  from assms have r: "ring ?l xs"
    and ix: "index_ok (x_entries s) ?l xs"
    and bk: "buckets_ok (x_buckets s) ?l xs"
    and nb: "length (x_buckets s) = numBuckets" "x_nextBucket s < numBuckets"
    by (simp_all add: x_inv_def)
  have d: "distinct ks" and dm: "set ks = dom (x_entries s)"
    using assms(2) by (simp_all add: range_order_def)
  have v: "\<forall>k \<in> set ks. \<exists>a. x_entries s k = Some (Ptr a) \<and> valid ?l (Ptr a)"
    using dm ix ring_valid [OF r] by (auto simp: index_ok_def dom_def) blast
  have e: "(\<lambda>k. if k \<in> set ks then None else x_entries s k) = Map.empty"
    using dm by (auto simp: fun_eq_iff dom_def)
  have fr: "\<forall>a. valid ?l (Ptr a) \<longrightarrow> a < fresh ?l"
    using r by (simp add: ring_def)
  have r0: "ring (list_Init ?l) []" by (rule ring_Init [OF fr])
  have bv: "\<forall>b \<in> set (x_buckets s). \<forall>k r. b_entries b k = Some r \<longrightarrow>
        (\<exists>a. r = Ptr a \<and> valid ?l (Ptr a) \<and> keyf ?l a = k)"
  proof (intro ballI allI impI)
    fix b k r assume "b \<in> set (x_buckets s)" "b_entries b k = Some r"
    then obtain i where "i < length (x_buckets s)" "b_entries (x_buckets s ! i) k = Some r"
      by (auto simp: in_set_conv_nth)
    with bk obtain a where "a \<in> set xs" "r = Ptr a" "keyf ?l a = k"
      unfolding buckets_ok_def by force
    then show "\<exists>a. r = Ptr a \<and> valid ?l (Ptr a) \<and> keyf ?l a = k"
      using ring_valid [OF r] by auto
  qed
  have pb: "purge_buckets ?l bks (x_buckets s) =
              Some (map (\<lambda>b. b\<lparr>b_entries := Map.empty\<rparr>) (x_buckets s))"
    by (rule purge_buckets_run [OF assms(3) bv])
  let ?s' = "s\<lparr>x_entries := Map.empty,
               x_buckets := map (\<lambda>b. b\<lparr>b_entries := Map.empty\<rparr>) (x_buckets s),
               x_evictList := list_Init ?l\<rparr>"
  have run: "x_Purge ks bks s w =
             Some (?s', fold (\<lambda>k. cb_apply (x_onEvict s) k
                                   (valf ?l (addr_of (x_entries s) k))) ks w)"
    using x_purge_loop_run [OF d v, of w] e pb by (simp add: x_Purge_def)
  have "x_inv ?s' []"
    using r0 nb by (simp add: x_inv_def index_ok_def buckets_ok_def)
  then show ?thesis using run by auto
qed

lemma sweep_loop_run:
  assumes "x_inv s xs" "nb < numBuckets"
  shows "\<exists>s' xs' w'. sweep_loop nb ks s w = Some (s', w') \<and> x_inv s' xs' \<and>
           length xs' \<le> length xs \<and> x_frame s s'"
  using assms(1)
proof (induction ks arbitrary: s xs w)
  case Nil
  then show ?case by auto
next
  case (Cons k ks)
  have nbl: "nb < length (x_buckets s)" using Cons.prems assms(2) by (simp add: x_inv_def)
  show ?case
  proof (cases "b_entries (x_buckets s ! nb) k")
    case None
    from Cons.IH [OF Cons.prems, of w] show ?thesis using None nbl by auto
  next
    case (Some r)
    from Cons.prems nbl Some obtain a where a: "a \<in> set xs" "r = Ptr a"
      unfolding x_inv_def buckets_ok_def by force
    then obtain ys zs where xs: "xs = ys @ a # zs" by (auto simp: in_set_conv_decomp)
    from x_removeEntry_run [of s ys a zs w] Cons.prems xs obtain s1 w1 where
      re: "x_removeEntry (Ptr a) s w = Some (s1, w1)" and inv1: "x_inv s1 (ys @ zs)"
      and fr: "x_frame s s1" by auto
    from Cons.IH [OF inv1, of w1] obtain s' xs' w' where
      sl: "sweep_loop nb ks s1 w1 = Some (s', w')" and inv': "x_inv s' xs'"
      and len: "length xs' \<le> length (ys @ zs)" and fr': "x_frame s1 s'"
      by auto
    have "sweep_loop nb (k # ks) s w = Some (s', w')"
      using Some a nbl re sl by simp
    then show ?thesis using inv' len xs x_frame_trans [OF fr fr'] by auto
  qed
qed

lemma deleteExpired_run:
  assumes "x_inv s xs"
  shows "\<exists>s' xs' w'. deleteExpired ks s w = Some (s', w') \<and> x_inv s' xs' \<and>
           length xs' \<le> length xs \<and> x_size s' = x_size s \<and> x_onEvict s' = x_onEvict s \<and>
           x_ttl s' = x_ttl s"
proof -
  have nb: "x_nextBucket s < numBuckets" "length (x_buckets s) = numBuckets"
    using assms by (simp_all add: x_inv_def)
  from sweep_loop_run [OF assms nb(1), of ks w] obtain s1 xs' w' where
    sl: "sweep_loop (x_nextBucket s) ks s w = Some (s1, w')" and inv1: "x_inv s1 xs'"
    and len: "length xs' \<le> length xs" and fr: "x_frame s s1"
    by blast
  let ?s' = "s1\<lparr>x_nextBucket := ((x_nextBucket s1 + 1) mod 256) mod numBuckets\<rparr>"
  have "deleteExpired ks s w = Some (?s', w')"
    using sl nb by (simp add: deleteExpired_def Let_def)
  moreover have "x_inv ?s' xs'"
    using inv1 by (simp add: x_inv_def numBuckets_def)
  ultimately show ?thesis using len fr by (auto simp: x_frame_def)
qed

lemma x_reachable_bounded: "x_reachable s \<Longrightarrow> \<exists>xs. x_bounded s xs"
proof (induction rule: x_reachable.induct)
  case (x_r_New sz cb ttl)
  then show ?case using x_inv_NewLRU [of sz cb ttl] by (auto simp: x_bounded_def)
next
  case (x_r_Add s key val now w ev s' w')
  then obtain xs where b: "x_inv s xs" "x_size s > 0 \<longrightarrow> int (length xs) \<le> x_size s"
    by (auto simp: x_bounded_def)
  show ?case
  proof (cases "x_entries s key")
    case None
    from x_Add_miss [OF b(1) None refl, of val now w] x_r_Add.hyps(2) show ?thesis
      using b(2) unfolding x_bounded_def
      by (auto split: if_splits intro!: exI)
  next
    case (Some r)
    from x_lookup [OF b(1) Some] obtain ys a zs where
      x: "xs = ys @ a # zs" "r = Ptr a" by metis
    from x_Add_hit [of s ys a zs key val now w] b x Some x_r_Add.hyps(2) show ?thesis
      unfolding x_bounded_def by (auto intro!: exI [of _ "a # ys @ zs"])
  qed
next
  case (x_r_Get s key now r s')
  then obtain xs where b: "x_inv s xs" "x_size s > 0 \<longrightarrow> int (length xs) \<le> x_size s"
    by (auto simp: x_bounded_def)
  show ?case
  proof (cases "x_entries s key")
    case None
    then show ?thesis using x_r_Get.hyps(2) b by (auto simp: x_Get_miss x_bounded_def)
  next
    case (Some r)
    from x_lookup [OF b(1) Some] obtain ys a zs where
      x: "xs = ys @ a # zs" "r = Ptr a" by metis
    have va: "valid (x_evictList s) (Ptr a)" using b(1) x by (auto simp: x_inv_def ring_valid)
    show ?thesis
    proof (cases "expf (x_evictList s) a < now")
      case True
      from x_Get_expired(1) [of s key a now] Some x va True x_r_Get.hyps(2) show ?thesis
        using b unfolding x_bounded_def by auto
    next
      case False
      from x_Get_live [of s ys a zs key now] b x Some False x_r_Get.hyps(2) show ?thesis
        unfolding x_bounded_def by (auto simp: x_frame_def intro!: exI [of _ "a # ys @ zs"])
    qed
  qed
next
  case (x_r_Remove s key w ok s' w')
  then obtain xs where b: "x_inv s xs" "x_size s > 0 \<longrightarrow> int (length xs) \<le> x_size s"
    by (auto simp: x_bounded_def)
  show ?case
  proof (cases "x_entries s key")
    case None
    then show ?thesis using x_r_Remove.hyps(2) b by (auto simp: x_Remove_miss x_bounded_def)
  next
    case (Some r)
    from x_lookup [OF b(1) Some] obtain ys a zs where
      x: "xs = ys @ a # zs" "r = Ptr a" by metis
    from x_Remove_hit [of s ys a zs key w] b x Some x_r_Remove.hyps(2) show ?thesis
      unfolding x_bounded_def by (auto simp: x_frame_def intro!: exI [of _ "ys @ zs"])
  qed
next
  case (x_r_RemoveOldest s w kv s' w')
  then obtain xs where b: "x_inv s xs" "x_size s > 0 \<longrightarrow> int (length xs) \<le> x_size s"
    by (auto simp: x_bounded_def)
  from x_RemoveOldest_run [OF b(1), of w] x_r_RemoveOldest.hyps(2) show ?case
    using b(2) unfolding x_bounded_def by (auto simp: x_frame_def intro!: exI [of _ "butlast xs"])
next
  case (x_r_Purge s ks bks w s' w')
  then obtain xs where b: "x_inv s xs" by (auto simp: x_bounded_def)
  from x_Purge_run [OF b x_r_Purge.hyps(2,3), of w] x_r_Purge.hyps(4) show ?case
    unfolding x_bounded_def by (auto intro!: exI [of _ "[]"])
next
  case (x_r_Resize s sz w n s' w')
  then obtain xs where b: "x_inv s xs" by (auto simp: x_bounded_def)
  show ?case
  proof (cases "sz \<le> 0")
    case True
    then have "s' = s\<lparr>x_size := 0\<rparr>" using x_r_Resize.hyps(2) by (simp add: x_Resize_def)
    then show ?thesis using b by (auto simp: x_bounded_def x_inv_def)
  next
    case False
    define d where "d = (if x_Len s - sz < 0 then 0 else x_Len s - sz)"
    from x_resize_loop_run [OF b, of 0 d w] obtain s1 where
      rl: "x_resize_loop 0 d s w =
           Some (s1, fold (\<lambda>a. cb_apply (x_onEvict s) (keyf (x_evictList s) a) (valf (x_evictList s) a))
                         (rev (drop (length xs - nat (d - 0)) xs)) w)"
      and inv1: "x_inv s1 (take (length xs - nat (d - 0)) xs)"
      by blast
    have s': "s' = s1\<lparr>x_size := sz\<rparr>"
      using x_r_Resize.hyps(2) rl False
      by (auto simp: x_Resize_def Let_def d_def x_Len_def split: if_splits)
    have "x_inv s' (take (length xs - nat (d - 0)) xs)"
      using inv1 unfolding s' by (simp add: x_inv_def)
    moreover have "int (length (take (length xs - nat (d - 0)) xs)) \<le> sz"
      using x_Len [OF b] False by (auto simp: d_def)
    ultimately show ?thesis unfolding x_bounded_def s' by (auto intro!: exI)
  qed
next
  case (x_r_deleteExpired s ks w s' w')
  then obtain xs where b: "x_inv s xs" "x_size s > 0 \<longrightarrow> int (length xs) \<le> x_size s"
    by (auto simp: x_bounded_def)
  from deleteExpired_run [OF b(1), of ks w] x_r_deleteExpired.hyps(4) obtain xs' where
    "x_inv s' xs'" "length xs' \<le> length xs" "x_size s' = x_size s" by auto
  then show ?case
    using b(2) unfolding x_bounded_def by (intro exI [of _ xs']) auto
qed

section \<open>Running the expirable examples\<close>

lemmas x_defs = x_NewLRU_def x_Add_def x_Get_def x_Contains_def x_Peek_def x_Remove_def
  x_RemoveOldest_def x_GetOldest_def x_Keys_def x_Values_def x_Len_def x_Cap_def x_Purge_def
  x_Resize_def x_removeOldest_def x_removeEntry_def addToBucket_def removeFromBucket_def
  numBuckets_def

lemma xe1_add: "x_Add 1 10 0 xe0 [] = Some (False, xe1, [])"
  by (simp add: xe1_def xe0_def x_defs list_defs heap_defs Let_def)

lemma x_reachable_xe1: "x_reachable xe1"
  using x_r_Add [OF x_r_New xe1_add [unfolded xe0_def]] .

lemma xe1_facts:
  "x_entries xe1 1 = Some (Ptr 0)" "get_ExpiresAt (x_evictList xe1) (Ptr 0) = Some 10"
  "Back (x_evictList xe1) = Ptr 0" "x_Len xe1 = 1"
  by (simp_all add: xe1_def xe0_def x_defs list_defs heap_defs Let_def)

lemma x_reachable_inv: "x_reachable s \<Longrightarrow> \<exists>xs. x_inv s xs"
  using x_reachable_bounded [of s] by (auto simp: x_bounded_def)

section \<open>Purging, and counting the entries\<close>

lemma ring_Nil_Init: "ring l [] \<Longrightarrow> list_Init l = l"
  using ring_nextf_Root [of l "[]"] ring_prevf_Root [of l "[]"] ring_len [of l "[]"]
  by (simp add: list_Init_def root_next_nextf [symmetric] root_prev_prevf [symmetric])

lemma range_order_empty: "range_order Map.empty ks \<longleftrightarrow> ks = []"
  by (auto simp: range_order_def)

lemma lru_Len_card: "lru_inv s xs \<Longrightarrow> Len s = int (card (dom (entries s)))"
proof -
  assume inv: "lru_inv s xs"
  then have "dom (entries s) = keyf (evictList s) ` set xs"
    by (simp add: lru_inv_def index_ok_dom)
  moreover have "card (keyf (evictList s) ` set xs) = card (set xs)"
    using inv index_ok_inj [of "entries s" "evictList s" xs]
    by (auto simp: lru_inv_def intro: card_image)
  moreover have "card (set xs) = length xs"
    using inv ring_distinct [of "evictList s" xs] by (simp add: lru_inv_def distinct_card)
  ultimately show ?thesis using lru_Len [OF inv] by simp
qed

lemma x_Peek_value:
  assumes "x_inv s xs" "k \<in> dom (x_entries s)"
  shows "\<exists>e. x_entries s k = Some e \<and>
           get_Value (x_evictList s) e = Some (valf (x_evictList s) (addr_of (x_entries s) k))"
proof -
  from assms(2) obtain r where r: "x_entries s k = Some r" by auto
  from x_lookup [OF assms(1) r] obtain ys a zs where
    x: "xs = ys @ a # zs" "r = Ptr a" by metis
  then have "valid (x_evictList s) (Ptr a)" using assms(1) by (auto simp: x_inv_def ring_valid)
  then show ?thesis using r x by (simp add: addr_of_def)
qed

lemma xe1_buckets:
  "x_buckets xe1 = (replicate 100 \<lparr>b_entries = Map.empty, newestEntry = 0\<rparr>)
                      [0 := \<lparr>b_entries = [1 \<mapsto> Ptr 0], newestEntry = 10\<rparr>]"
  by (simp add: xe1_def xe0_def x_defs list_defs heap_defs Let_def)

lemma xe1_orders:
  "range_order (x_entries xe1) [1]"
  "list_all2 (\<lambda>b ks. range_order (b_entries b) ks) (x_buckets xe1) ((replicate 100 [])[0 := [1]])"
proof -
  show "range_order (x_entries xe1) [1]"
    by (simp add: xe1_def xe0_def x_defs list_defs heap_defs Let_def range_order_def)
  show "list_all2 (\<lambda>b ks. range_order (b_entries b) ks) (x_buckets xe1) ((replicate 100 [])[0 := [1]])"
    unfolding xe1_buckets
    by (rule list_all2_update_cong) (simp_all add: list_all2_conv_all_nth range_order_def)
qed

lemma ex2_order: "range_order (entries ex2) [2, 1]"
  by (auto simp add: ex2_def ex1_def ex0_def lru_defs list_defs heap_defs Let_def range_order_def)

section \<open>The thread-safe cache keeps its invariant\<close>

lemma c_inv_New: "NewWithOnEvict sz cb = (c, None) \<Longrightarrow> c_inv c"
  using lru_inv_NewLRU [of sz "if cb \<noteq> None then Some onEvictCB else None"]
  by (auto simp: NewWithOnEvict_def c_inv_def Let_def initEvictBuffers_def NewLRU_def
           split: sum.splits if_splits)

lemma fold_onEvictCB:
  "fold (\<lambda>x. cb_apply (Some onEvictCB) (g x) (h x)) xs buf = (fst buf @ map g xs, snd buf @ map h xs)"
  by (induction xs arbitrary: buf) (auto simp: cb_apply_def onEvictCB_def)

lemma fold_no_callback: "fold (\<lambda>x. cb_apply None (g x) (h x)) xs buf = buf"
  by (induction xs arbitrary: buf) (auto simp: cb_apply_def)

lemma deliver_all_same_length:
  "length ks = length vs \<Longrightarrow> \<exists>w'. deliver_all f ks vs w = Some w'"
  by (induction f ks vs w rule: deliver_all.induct) auto

text \<open>The operations that evict at most one entry: \<open>Add\<close>, \<open>Remove\<close>, \<open>RemoveOldest\<close>.\<close>

lemma deliver_one_drains:
  assumes "c_onEvict c = None \<longrightarrow> evictedKeys c = [] \<and> evictedValues c = []"
    "c_onEvict c \<noteq> None \<longrightarrow>
       (if flag then \<exists>k v. evictedKeys c = [k] \<and> evictedValues c = [v]
        else evictedKeys c = [] \<and> evictedValues c = [])"
  shows "\<exists>c' w'. deliver_one flag c w = Some (c', w') \<and> evictedKeys c' = [] \<and>
           evictedValues c' = [] \<and> lru c' = lru c \<and> c_onEvict c' = c_onEvict c"
  using assms by (auto simp: deliver_one_def take_one_def split: option.splits)

lemma c_one:
  assumes inv: "c_inv c" and l: "lru c = Some l"
    and run: "f l ([], []) =
                Some (r, l', if flag r then cb_apply (onEvict l) k v ([], []) else ([], []))"
    and inv': "lru_inv l' xs'" and cb: "onEvict l' = onEvict l"
  shows "\<exists>c' w'. (do { (r, c) \<leftarrow> with_lru f c;
                        (c, w) \<leftarrow> deliver_one (flag r) c w;
                        Some (g r, c, w) }) = Some (g r, c', w') \<and> c_inv c'"
proof -
  let ?buf = "if flag r then cb_apply (onEvict l) k v ([], []) else ([], [])"
  let ?c1 = "c\<lparr>lru := Some l', evictedKeys := fst ?buf, evictedValues := snd ?buf\<rparr>"
  from inv l have e: "evictedKeys c = []" "evictedValues c = []"
    and oe: "onEvict l = (if c_onEvict c = None then None else Some onEvictCB)"
    by (auto simp: c_inv_def)
  have w1: "with_lru f c = Some (r, ?c1)"
    using l run e by (simp add: with_lru_def)
  have "\<exists>c' w'. deliver_one (flag r) ?c1 w = Some (c', w') \<and> evictedKeys c' = [] \<and>
           evictedValues c' = [] \<and> lru c' = lru ?c1 \<and> c_onEvict c' = c_onEvict ?c1"
    by (rule deliver_one_drains) (use oe in \<open>auto simp: cb_apply_def onEvictCB_def\<close>)
  then obtain c' w' where d: "deliver_one (flag r) ?c1 w = Some (c', w')"
    and e': "evictedKeys c' = []" "evictedValues c' = []" "lru c' = Some l'"
      "c_onEvict c' = c_onEvict c"
    by auto
  have "c_inv c'" using e' inv' cb oe by (auto simp: c_inv_def)
  then show ?thesis using w1 d by auto
qed

lemma c_inv_lru:
  assumes "c_inv c"
  obtains l xs where "lru c = Some l" "lru_inv l xs"
  using assms by (auto simp: c_inv_def)

lemma c_Add_core:
  assumes "c_inv c"
  shows "\<exists>ev c' w'. (do { (r, c) \<leftarrow> with_lru (Add key val) c;
                        (c, w) \<leftarrow> deliver_one r c w;
                        Some (g r, c, w) }) = Some (g ev, c', w') \<and> c_inv c'"
proof -
  from c_inv_lru [OF assms] obtain l xs where l: "lru c = Some l" and inv: "lru_inv l xs" by metis
  show ?thesis
  proof (cases "entries l key")
    case None
    from lru_Add_miss [OF inv None, of val "([], [])"] obtain l' a where
      run: "Add key val l ([], []) =
             Some (int (length xs) + 1 > size_lru l, l',
                   if int (length xs) + 1 > size_lru l
                   then cb_apply (onEvict l) (((keyf (evictList l))(a := key)) (last (a # xs)))
                          (((valf (evictList l))(a := val)) (last (a # xs))) ([], [])
                   else ([], []))"
      and inv': "lru_inv l' (if int (length xs) + 1 > size_lru l then butlast (a # xs) else a # xs)"
      and cb: "onEvict l' = onEvict l"
      by blast
    from c_one [where f = "Add key val" and flag = "\<lambda>r. r" and g = g and w = w
        and r = "int (length xs) + 1 > size_lru l"
        and k = "((keyf (evictList l))(a := key)) (last (a # xs))"
        and v = "((valf (evictList l))(a := val)) (last (a # xs))", OF assms l run inv' cb]
    show ?thesis by blast
  next
    case (Some r)
    from lru_lookup [OF inv Some] obtain ys a zs where
      x: "xs = ys @ a # zs" "r = Ptr a" by metis
    from lru_Add_hit [of l ys a zs key val "([], [])"] inv x Some obtain l' where
      run: "Add key val l ([], []) = Some (False, l', ([], []))"
      and inv': "lru_inv l' (a # ys @ zs)" and cb: "onEvict l' = onEvict l"
      by auto
    have run': "Add key val l ([], []) =
                  Some (False, l', if False then cb_apply (onEvict l) key val ([], []) else ([], []))"
      using run by simp
    from c_one [where f = "Add key val" and flag = "\<lambda>r. r" and g = g and w = w
        and r = False and k = key and v = val, OF assms l run' inv' cb]
    show ?thesis by blast
  qed
qed

lemma c_Add_run:
  assumes "c_inv c"
  shows "\<exists>ev c' w'. Cache_Add key val c w = Some (ev, c', w') \<and> c_inv c'"
  using c_Add_core [OF assms, of key val w "\<lambda>r. r"] unfolding Cache_Add_def by auto

lemma c_ContainsOrAdd_run:
  assumes "c_inv c"
  shows "\<exists>res c' w'. ContainsOrAdd key val c w = Some (res, c', w') \<and> c_inv c'"
proof -
  from c_inv_lru [OF assms] obtain l where l: "lru c = Some l" by blast
  show ?thesis
  proof (cases "Contains key l")
    case True
    then show ?thesis using l assms by (auto simp: ContainsOrAdd_def)
  next
    case False
    from c_Add_core [OF assms, of key val w "\<lambda>r. (False, r)"] show ?thesis
      using False l unfolding ContainsOrAdd_def by auto
  qed
qed

lemma c_PeekOrAdd_run:
  assumes "c_inv c"
  shows "\<exists>res c' w'. PeekOrAdd key val c w = Some (res, c', w') \<and> c_inv c'"
proof -
  from c_inv_lru [OF assms] obtain l xs where l: "lru c = Some l" and inv: "lru_inv l xs" by metis
  show ?thesis
  proof (cases "entries l key = None")
    case False
    then show ?thesis using l assms lru_Peek [OF inv, of key] by (auto simp: PeekOrAdd_def)
  next
    case True
    from c_Add_core [OF assms, of key val w "\<lambda>r. (None, r)"] show ?thesis
      using True l lru_Peek [OF inv, of key] unfolding PeekOrAdd_def by auto
  qed
qed

lemma c_Get_run:
  assumes "c_inv c"
  shows "\<exists>r c'. Cache_Get key c = Some (r, c') \<and> c_inv c'"
proof -
  from assms obtain l xs where l: "lru c = Some l" and inv: "lru_inv l xs"
    and oe: "onEvict l = (if c_onEvict c = None then None else Some onEvictCB)"
    and e: "evictedKeys c = []" "evictedValues c = []"
    by (auto simp: c_inv_def)
  show ?thesis
  proof (cases "entries l key")
    case None
    then show ?thesis using l assms by (auto simp: Cache_Get_def lru_Get_miss c_inv_def)
  next
    case (Some r)
    from lru_lookup [OF inv Some] obtain ys a zs where
      x: "xs = ys @ a # zs" "r = Ptr a" by metis
    from lru_Get_hit [of l ys a zs key] inv x Some obtain l' where
      "Get key l = Some (Some (valf (evictList l) a), l')" "lru_inv l' (a # ys @ zs)"
      "onEvict l' = onEvict l" by auto
    then show ?thesis using l oe e by (auto simp: Cache_Get_def c_inv_def)
  qed
qed

lemma c_Remove_run:
  assumes "c_inv c"
  shows "\<exists>ok c' w'. Cache_Remove key c w = Some (ok, c', w') \<and> c_inv c'"
proof -
  from c_inv_lru [OF assms] obtain l xs where l: "lru c = Some l" and inv: "lru_inv l xs" by metis
  show ?thesis
  proof (cases "entries l key")
    case None
    have run: "Remove key l ([], []) = Some (False, l, if False then cb_apply (onEvict l) undefined undefined ([], []) else ([], []))"
      using None by (simp add: lru_Remove_miss)
    from c_one [where f = "Remove key" and flag = "\<lambda>r. r" and g = "\<lambda>r. r" and w = w
        and r = False and k = undefined and v = undefined, OF assms l run inv refl]
    show ?thesis unfolding Cache_Remove_def by auto
  next
    case (Some r)
    from lru_lookup [OF inv Some] obtain ys a zs where
      x: "xs = ys @ a # zs" "r = Ptr a" by metis
    from lru_Remove_hit [of l ys a zs key "([], [])"] inv x Some obtain l' where
      run: "Remove key l ([], []) = Some (True, l', cb_apply (onEvict l) key (valf (evictList l) a) ([], []))"
      and inv': "lru_inv l' (ys @ zs)" and cb: "onEvict l' = onEvict l"
      by auto
    have run': "Remove key l ([], []) =
                  Some (True, l', if True then cb_apply (onEvict l) key (valf (evictList l) a) ([], [])
                                  else ([], []))"
      using run by simp
    from c_one [where f = "Remove key" and flag = "\<lambda>r. r" and g = "\<lambda>r. r" and w = w
        and r = True and k = key and v = "valf (evictList l) a", OF assms l run' inv' cb]
    show ?thesis unfolding Cache_Remove_def by auto
  qed
qed

lemma c_RemoveOldest_run:
  assumes "c_inv c"
  shows "\<exists>kv c' w'. Cache_RemoveOldest c w = Some (kv, c', w') \<and> c_inv c'"
proof -
  from c_inv_lru [OF assms] obtain l xs where l: "lru c = Some l" and inv: "lru_inv l xs" by metis
  let ?r = "if xs = [] then None
            else Some (keyf (evictList l) (last xs), valf (evictList l) (last xs))"
  from lru_RemoveOldest [OF inv, of "([], [])"] obtain l' where
    run0: "RemoveOldest l ([], []) =
             Some (?r, l',
                   if xs = [] then ([], [])
                   else cb_apply (onEvict l) (keyf (evictList l) (last xs))
                          (valf (evictList l) (last xs)) ([], []))"
    and inv': "lru_inv l' (butlast xs)" and cb: "onEvict l' = onEvict l"
    by auto
  have run: "RemoveOldest l ([], []) =
             Some (?r, l',
                   if ?r \<noteq> None
                   then cb_apply (onEvict l) (keyf (evictList l) (last xs))
                          (valf (evictList l) (last xs)) ([], [])
                   else ([], []))"
    using run0 by auto
  from c_one [where f = RemoveOldest and flag = "\<lambda>r. r \<noteq> None" and g = "\<lambda>r. r" and w = w
      and r = ?r and k = "keyf (evictList l) (last xs)" and v = "valf (evictList l) (last xs)",
      OF assms l run inv' cb]
  show ?thesis unfolding Cache_RemoveOldest_def by auto
qed

lemma c_Purge_run:
  assumes "c_inv c" "lru c = Some l" "range_order (entries l) ks"
  shows "\<exists>c' w'. Cache_Purge ks c w = Some (c', w') \<and> c_inv c'"
proof -
  from assms(1,2) obtain xs where inv: "lru_inv l xs"
    and oe: "onEvict l = (if c_onEvict c = None then None else Some onEvictCB)"
    and e: "evictedKeys c = []" "evictedValues c = []"
    by (auto simp: c_inv_def)
  let ?vf = "\<lambda>k. valf (evictList l) (addr_of (entries l) k)"
  let ?buf = "fold (\<lambda>k. cb_apply (onEvict l) k (?vf k)) ks ([], [])"
  from lru_Purge [OF inv assms(3), of "([], [])"] obtain l' where
    p: "Purge ks l ([], []) = Some (l', ?buf)"
    and inv': "lru_inv l' []" and cb: "onEvict l' = onEvict l"
    by blast
  let ?c1 = "c\<lparr>lru := Some l', evictedKeys := fst ?buf, evictedValues := snd ?buf\<rparr>"
  have w1: "with_lru (\<lambda>l buf. map_option (Pair ()) (Purge ks l buf)) c = Some ((), ?c1)"
    using assms(2) p e by (simp add: with_lru_def)
  show ?thesis
  proof (cases "c_onEvict c")
    case None
    then have "?buf = ([], [])" using oe fold_no_callback [of "\<lambda>k. k" ?vf ks] by simp
    then have "Cache_Purge ks c w = Some (?c1, w)" "c_inv ?c1"
      using w1 None inv' cb oe by (auto simp: Cache_Purge_def c_inv_def)
    then show ?thesis by blast
  next
    case (Some f)
    then have b: "?buf = (ks, map ?vf ks)" using oe fold_onEvictCB [of "\<lambda>k. k" ?vf ks] by simp
    from deliver_all_same_length [of ks "map ?vf ks" f w] obtain w' where
      d: "deliver_all f ks (map ?vf ks) w = Some w'" by auto
    let ?c' = "c\<lparr>lru := Some l', evictedKeys := [], evictedValues := []\<rparr>"
    have "Cache_Purge ks c w = Some (?c', if ks = [] then w else w')"
      using w1 Some b d by (auto simp: Cache_Purge_def initEvictBuffers_def)
    moreover have "c_inv ?c'" using inv' cb oe by (auto simp: c_inv_def)
    ultimately show ?thesis by blast
  qed
qed

lemma lru_Resize_any:
  assumes "lru_inv l xs"
  shows "\<exists>l' as d. Resize sz l buf =
            Some (d, l', fold (\<lambda>a. cb_apply (onEvict l) (keyf (evictList l) a) (valf (evictList l) a))
                           as buf) \<and>
          (d \<le> 0 \<longrightarrow> as = []) \<and> (\<exists>xs'. lru_inv l' xs') \<and> onEvict l' = onEvict l"
proof -
  define d where "d = (if Len l - sz < 0 then 0 else Len l - sz)"
  from resize_loop_run [OF assms, of 0 d buf] obtain l1 where
    rl: "resize_loop 0 d l buf =
           Some (l1, fold (\<lambda>a. cb_apply (onEvict l) (keyf (evictList l) a) (valf (evictList l) a))
                         (rev (drop (length xs - nat (d - 0)) xs)) buf)"
    and inv1: "lru_inv l1 (take (length xs - nat (d - 0)) xs)"
    and cb: "onEvict l1 = onEvict l"
    by blast
  have "Resize sz l buf = do { (l, w) \<leftarrow> resize_loop 0 d l buf; Some (d, l\<lparr>size_lru := sz\<rparr>, w) }"
    by (simp add: Resize_def Let_def d_def)
  then have "Resize sz l buf =
            Some (d, l1\<lparr>size_lru := sz\<rparr>,
                  fold (\<lambda>a. cb_apply (onEvict l) (keyf (evictList l) a) (valf (evictList l) a))
                         (rev (drop (length xs - nat (d - 0)) xs)) buf)"
    using rl by simp
  moreover have "d \<le> 0 \<longrightarrow> rev (drop (length xs - nat (d - 0)) xs) = []" by simp
  moreover have "lru_inv (l1\<lparr>size_lru := sz\<rparr>) (take (length xs - nat (d - 0)) xs)"
    using inv1 by (simp add: lru_inv_def)
  ultimately show ?thesis using cb by fastforce
qed

lemma c_Resize_run:
  assumes "c_inv c"
  shows "\<exists>n c' w'. Cache_Resize sz c w = Some (n, c', w') \<and> c_inv c'"
proof -
  from assms obtain l xs where l: "lru c = Some l" and inv: "lru_inv l xs"
    and oe: "onEvict l = (if c_onEvict c = None then None else Some onEvictCB)"
    and e: "evictedKeys c = []" "evictedValues c = []"
    by (auto simp: c_inv_def)
  let ?kf = "keyf (evictList l)" and ?vf = "valf (evictList l)"
  from lru_Resize_any [OF inv, of sz "([], [])"] obtain l' as d xs' where
    r: "Resize sz l ([], []) =
          Some (d, l', fold (\<lambda>a. cb_apply (onEvict l) (?kf a) (?vf a)) as ([], []))"
    and z: "d \<le> 0 \<longrightarrow> as = []" and inv': "lru_inv l' xs'" and cb: "onEvict l' = onEvict l"
    by blast
  let ?buf = "fold (\<lambda>a. cb_apply (onEvict l) (?kf a) (?vf a)) as ([], [])"
  let ?c1 = "c\<lparr>lru := Some l', evictedKeys := fst ?buf, evictedValues := snd ?buf\<rparr>"
  have w1: "with_lru (Resize sz) c = Some (d, ?c1)"
    using l r e by (simp add: with_lru_def)
  show ?thesis
  proof (cases "c_onEvict c")
    case None
    then have "?buf = ([], [])" using oe fold_no_callback [of ?kf ?vf as] by simp
    then have "Cache_Resize sz c w = Some (d, ?c1, w)" "c_inv ?c1"
      using w1 None inv' cb oe by (auto simp: Cache_Resize_def c_inv_def)
    then show ?thesis by blast
  next
    case (Some f)
    then have b: "?buf = (map ?kf as, map ?vf as)"
      using oe fold_onEvictCB [of ?kf ?vf as] by simp
    from deliver_all_same_length [of "map ?kf as" "map ?vf as" f w] obtain w' where
      d: "deliver_all f (map ?kf as) (map ?vf as) w = Some w'" by auto
    let ?c' = "c\<lparr>lru := Some l', evictedKeys := [], evictedValues := []\<rparr>"
    have "Cache_Resize sz c w = Some (d, ?c', if d > 0 then w' else w)"
      using w1 Some b d z by (auto simp: Cache_Resize_def initEvictBuffers_def)
    moreover have "c_inv ?c'" using inv' cb oe by (auto simp: c_inv_def)
    ultimately show ?thesis by blast
  qed
qed

lemma c_reachable_inv: "c_reachable c \<Longrightarrow> c_inv c"
proof (induction rule: c_reachable.induct)
  case (c_New sz cb c)
  then show ?case by (rule c_inv_New)
next
  case (c_Add c key val w ev c' w')
  then show ?case using c_Add_run [of c key val w] by auto
next
  case (c_Get c key r c')
  then show ?case using c_Get_run [of c key] by auto
next
  case (c_ContainsOrAdd c key val w res c' w')
  then show ?case using c_ContainsOrAdd_run [of c key val w] by auto
next
  case (c_PeekOrAdd c key val w pres c' w')
  then show ?case using c_PeekOrAdd_run [of c key val w] by auto
next
  case (c_Remove c key w ok c' w')
  then show ?case using c_Remove_run [of c key w] by auto
next
  case (c_RemoveOldest c w kv c' w')
  then show ?case using c_RemoveOldest_run [of c w] by auto
next
  case (c_Purge c l ks w c' w')
  then show ?case using c_Purge_run [of c l ks w] by auto
next
  case (c_Resize c sz w n c' w')
  then show ?case using c_Resize_run [of c sz w] by auto
qed

lemmas cache_defs = NewWithOnEvict_def initEvictBuffers_def onEvictCB_def take_one_def
  with_lru_def deliver_one_def Cache_Add_def Cache_Purge_def Cache_Resize_def

lemma cx0_new: "NewWithOnEvict 2 (Some log_evict) = (cx0, None)"
  by (simp add: cx0_def cache_defs NewLRU_def)

lemma cx1_add: "Cache_Add 1 10 cx0 [] = Some (False, cx1, [])"
  by (simp add: cx1_def cx0_def cache_defs lru_defs list_defs heap_defs Let_def)

lemma cx2_add: "Cache_Add 2 20 cx1 [] = Some (False, cx2, [])"
  by (simp add: cx2_def cx1_def cx0_def cache_defs lru_defs list_defs heap_defs Let_def)

lemma c_reachable_cx2: "c_reachable cx2"
  by (rule c_Add [OF c_Add [OF c_New [OF cx0_new] cx1_add] cx2_add])

lemma cx2_order: "\<exists>l. lru cx2 = Some l \<and> range_order (entries l) [2, 1]"
  by (auto simp add: cx2_def cx1_def cx0_def cache_defs lru_defs list_defs heap_defs Let_def
        range_order_def)

section \<open>Construction\<close>

lemma x_Add_unbounded:
  assumes "x_size l \<le> 0" and "x_Add key val now l w = Some (ev, l', w')"
  shows "\<not> ev \<and> w' = w \<and> x_size l' = x_size l"
  using assms
  by (auto simp: x_Add_def Let_def addToBucket_def removeFromBucket_def
           split: option.splits Option.bind_splits if_splits prod.splits)

text \<open>
  C2 (as the code has it). For every capacity \<open>sz \<le> 0\<close>: the basic constructor fails
  with the invalid-size error; the constructor of the thread-safe cache passes that
  same error on, next to a cache whose wrapped LRU is nil; the expirable constructor has
  no error result and stores capacity 0, and an expirable cache of capacity 0 is
  unbounded: no \<open>Add\<close> on it reports an eviction or calls the callback.
\<close>

theorem C2_constructors:
  "sz \<le> 0 \<Longrightarrow>
     NewLRU sz cb = Inl (InvalidSize sz) \<and>
     NewWithOnEvict sz cb2 =
       (\<lparr>lru = None, evictedKeys = [], evictedValues = [], c_onEvict = cb2\<rparr>,
        Some (InvalidSize sz)) \<and>
     x_Cap (x_NewLRU sz cb3 ttl) = 0 \<and>
     (x_Cap l = 0 \<and> x_Add key val now l w = Some (ev, l', w') \<longrightarrow>
        \<not> ev \<and> w' = w \<and> x_Cap l' = 0)"
  using x_Add_unbounded [of l key val now w ev l' w']
  by (auto simp add: NewLRU_def NewWithOnEvict_def x_NewLRU_def x_Cap_def initEvictBuffers_def
        Let_def)

theorem C2_constructors_witness:
  "(-3::int) \<le> 0 \<and>
   NewLRU (-3) (None :: (nat \<Rightarrow> nat \<Rightarrow> unit \<Rightarrow> unit) option) = Inl (InvalidSize (-3)) \<and>
   snd (NewWithOnEvict (-3) (None :: (nat \<Rightarrow> nat \<Rightarrow> unit \<Rightarrow> unit) option)) =
     Some (InvalidSize (-3)) \<and>
   x_Cap (x_NewLRU (-3) (None :: (nat \<Rightarrow> nat \<Rightarrow> unit \<Rightarrow> unit) option) 0) = 0 \<and>
   (\<exists>l'. x_Add (1::nat) (2::nat) 5 (x_NewLRU (-3) None 0) () = Some (False, l', ()) \<and>
         x_Cap l' = 0)"
proof -
  have run: "\<exists>l'. x_Add (1::nat) (2::nat) 5 (x_NewLRU (-3) None 0) () = Some (False, l', ())"
    by (simp add: x_Add_def x_NewLRU_def Let_def heap_defs list_defs addToBucket_def
          numBuckets_def)
  then obtain l' where
    l': "x_Add (1::nat) (2::nat) 5 (x_NewLRU (-3) None 0) () = Some (False, l', ())" ..
  have cap0: "x_Cap (x_NewLRU (-3) (None :: (nat \<Rightarrow> nat \<Rightarrow> unit \<Rightarrow> unit) option) 0) = 0"
    by (simp add: x_NewLRU_def x_Cap_def Let_def)
  show ?thesis
    using C2_constructors [of "-3" "None :: (nat \<Rightarrow> nat \<Rightarrow> unit \<Rightarrow> unit) option"
        "None :: (nat \<Rightarrow> nat \<Rightarrow> unit \<Rightarrow> unit) option"
        "None :: (nat \<Rightarrow> nat \<Rightarrow> unit \<Rightarrow> unit) option" 0
        "x_NewLRU (-3) None 0" 1 2 5 "()" False l' "()"] l' cap0
    by auto
qed

theorem C2_facade_counterexample:
  "snd (NewWithOnEvict 0 (None :: (nat \<Rightarrow> nat \<Rightarrow> unit \<Rightarrow> unit) option)) = Some (InvalidSize 0) \<and>
   lru (fst (NewWithOnEvict 0 (None :: (nat \<Rightarrow> nat \<Rightarrow> unit \<Rightarrow> unit) option))) = None"
  by (simp add: NewWithOnEvict_def NewLRU_def Let_def)

section \<open>Add on a key that is present\<close>

text \<open>
  C3. In every reachable state of the basic cache, \<open>Add\<close> of a key that is present
  returns false without calling the callback, leaves \<open>Len\<close> and the capacity unchanged,
  stores the new value under the key (as \<open>Peek\<close> shows), changes no other entry, and
  moves the key to the front of the recency order: in \<open>Keys\<close>, which runs from the
  oldest to the newest, the key becomes the last element and the others keep their order.
\<close>

theorem C3_Add_existing_key:
  assumes "reachable s" and "Contains key s"
  shows "\<exists>s' ks. Add key val s w = Some (False, s', w) \<and> Len s' = Len s \<and>
           Keys s = Some ks \<and>
           Keys s' = Some (filter (\<lambda>k. k \<noteq> Some key) ks @ [Some key]) \<and>
           Peek key s' = Some (Some val) \<and>
           (\<forall>k. k \<noteq> key \<longrightarrow> Peek k s' = Peek k s \<and> Contains k s' = Contains k s) \<and>
           Contains key s' \<and> Cap s' = Cap s"
proof -
  from reachable_bounded [OF assms(1)] obtain xs where inv: "lru_inv s xs"
    by (auto simp: bounded_def)
  from assms(2) obtain r where r: "entries s key = Some r"
    by (auto simp: Contains_def split: option.splits)
  from lru_lookup [OF inv r] obtain ys a zs where
    x: "xs = ys @ a # zs" "r = Ptr a" "keyf (evictList s) a = key" by metis
  from lru_Add_hit [of s ys a zs key val w] inv x r obtain s' where
    add: "Add key val s w = Some (False, s', w)" and inv': "lru_inv s' (a # ys @ zs)"
    and fr: "keyf (evictList s') = keyf (evictList s)"
      "valf (evictList s') = (valf (evictList s))(a := val)"
      "size_lru s' = size_lru s" "entries s' = entries s"
    by auto
  have inj: "inj_on (keyf (evictList s)) (set (ys @ a # zs))"
    using inv x index_ok_inj [of "entries s" "evictList s" xs] by (simp add: lru_inv_def)
  have d: "distinct (ys @ a # zs)"
    using inv x ring_distinct [of "evictList s" xs] by (simp add: lru_inv_def)
  have ks: "Keys s' = Some (filter (\<lambda>k. k \<noteq> Some key)
              (map (\<lambda>b. Some (keyf (evictList s) b)) (rev xs)) @ [Some key])"
    unfolding lru_Keys [OF inv'] fr x(1) x(3) [symmetric] filter_moved [OF inj d] by simp
  have pk: "\<forall>k. k \<noteq> key \<longrightarrow> Peek k s' = Peek k s"
  proof (intro allI impI)
    fix k assume "k \<noteq> key"
    then have "entries s k \<noteq> None \<Longrightarrow> addr_of (entries s) k \<noteq> a"
      using lru_addr_of(2) [OF inv, of k] x(3) by auto
    then show "Peek k s' = Peek k s"
      unfolding lru_Peek [OF inv'] lru_Peek [OF inv] fr by auto
  qed
  have "Peek key s' = Some (Some val)"
    unfolding lru_Peek [OF inv'] fr using r x by (simp add: addr_of_def)
  moreover have "Len s' = Len s" using lru_Len [OF inv'] lru_Len [OF inv] x by simp
  moreover have "\<forall>k. Contains k s' = Contains k s" using fr by (simp add: Contains_def)
  ultimately show ?thesis
    using add ks pk lru_Keys [OF inv] assms(2) fr by (simp add: Cap_def)
qed

theorem C3_Add_existing_key_witness:
  "reachable ex2 \<and> Contains 1 ex2 \<and>
   (\<exists>s'. Add 1 11 ex2 [] = Some (False, s', []) \<and> Len s' = 2 \<and> Len ex2 = 2 \<and>
      Keys ex2 = Some [Some 1, Some 2] \<and> Keys s' = Some [Some 2, Some 1] \<and>
      Peek 1 s' = Some (Some 11) \<and> Peek 2 s' = Some (Some 20))"
proof -
  have c: "Contains 1 ex2"
    by (simp add: ex2_def ex1_def ex0_def lru_defs list_defs heap_defs Let_def)
  have k: "Keys ex2 = Some [Some 1, Some 2]"
    by (simp add: ex2_def ex1_def ex0_def lru_defs list_defs heap_defs Let_def eval_nat_numeral)
  have l: "Len ex2 = 2"
    by (simp add: ex2_def ex1_def ex0_def lru_defs list_defs heap_defs Let_def)
  have p: "Peek 2 ex2 = Some (Some 20)"
    by (simp add: ex2_def ex1_def ex0_def lru_defs list_defs heap_defs Let_def)
  from C3_Add_existing_key [OF reachable_ex2 c, of 11 "[]"] k l p
  show ?thesis using reachable_ex2 c by auto
qed

section \<open>Adding beyond the capacity\<close>

text \<open>
  C1. On a new basic cache of capacity \<open>c\<close>, any sequence of \<open>Add\<close> calls with pairwise
  distinct keys (and nothing in between) runs through; the call number \<open>i\<close> (from 0)
  returns true exactly when \<open>i \<ge> c\<close>, that is, every call beyond the \<open>c\<close>-th evicts;
  the callback is called for the evicted entries in the order in which they were added
  (oldest first), each eviction removing the oldest entry then held; and afterwards the
  cache holds exactly the last \<open>c\<close> entries added (all of them if there are fewer),
  \<open>Keys\<close> and \<open>Values\<close> listing them from the oldest to the newest.
\<close>

theorem C1_adds_beyond_capacity:
  assumes "NewLRU c cb = Inr s0" and "distinct (map fst kvs)"
  shows "\<exists>s. add_all kvs s0 w =
            Some (map (\<lambda>i. c \<le> int i) [0..<length kvs], s,
                  fold (\<lambda>kv. cb_apply cb (fst kv) (snd kv)) (take (length kvs - nat c) kvs) w) \<and>
          Keys s = Some (map (\<lambda>kv. Some (fst kv)) (drop (length kvs - nat c) kvs)) \<and>
          Values s = Some (map (\<lambda>kv. Some (snd kv)) (drop (length kvs - nat c) kvs)) \<and>
          Len s = min (int (length kvs)) c"
proof -
  from holds_New [OF assms(1)] have h: "holds s0 []" and sz: "size_lru s0 = c" and c: "0 < c"
    and cb: "onEvict s0 = cb" by auto
  from add_all_run [OF h sz c _ assms(2), of w] obtain s where
    run: "add_all kvs s0 w =
            Some (map (\<lambda>i. c \<le> int i) [0..<length kvs], s,
                  fold (\<lambda>kv. cb_apply cb (fst kv) (snd kv)) (take (length kvs - nat c) kvs) w)"
    and h': "holds s (drop (length kvs - nat c) kvs)"
    using c cb by auto
  have "Len s = min (int (length kvs)) c"
    using holds_Len [OF h'] c by auto
  then show ?thesis using run holds_Keys [OF h'] holds_Values [OF h'] by blast
qed

theorem C1_adds_beyond_capacity_witness:
  "NewLRU 2 (Some log_evict) = Inr ex0 \<and> distinct (map fst [(1::nat, 10::nat), (2, 20), (3, 30)]) \<and>
   (\<exists>s. add_all [(1, 10), (2, 20), (3, 30)] ex0 [] = Some ([False, False, True], s, [(1, 10)]) \<and>
        Keys s = Some [Some 2, Some 3] \<and> Values s = Some [Some 20, Some 30] \<and> Len s = 2)"
proof -
  have d: "distinct (map fst [(1::nat, 10::nat), (2, 20), (3, 30)])" by simp
  have u: "[0..<3] = [0, 1, 2]" by (simp add: upt_rec)
  from C1_adds_beyond_capacity [OF ex0_new d, of "[]"]
  show ?thesis using ex0_new d by (simp add: u cb_apply_def log_evict_def)
qed

section \<open>Get, Peek and Contains\<close>

text \<open>
  C4 (as the code has it). \<open>Peek\<close> and \<open>Contains\<close> only read: they are functions of
  the state and have no successor state, so they leave the recency order and every entry
  as they are. In every reachable state of the basic cache, \<open>Get\<close> of a key that is
  present returns the value that \<open>Peek\<close> returns, and moves the key to the front: in
  \<open>Keys\<close> (oldest to newest) the key becomes the last element, the others keeping
  their order. Length, capacity and all values stay the same. The eviction order changes
  exactly when the key was not already the most recently used one. \<open>Get\<close> of a key that
  is absent returns not-found and leaves the state as it is.
\<close>

theorem C4_Get_moves_to_front:
  assumes "reachable s"
  shows "(Contains key s \<longrightarrow>
           (\<exists>v s' ks. Get key s = Some (Some v, s') \<and> Peek key s = Some (Some v) \<and>
              Keys s = Some ks \<and>
              Keys s' = Some (filter (\<lambda>k. k \<noteq> Some key) ks @ [Some key]) \<and>
              (Keys s' = Keys s \<longleftrightarrow> last ks = Some key) \<and>
              Len s' = Len s \<and> Cap s' = Cap s \<and>
              (\<forall>k. Peek k s' = Peek k s \<and> Contains k s' = Contains k s))) \<and>
         (\<not> Contains key s \<longrightarrow> Get key s = Some (None, s) \<and> Peek key s = Some None)"
proof (intro conjI impI)
  assume c: "Contains key s"
  from reachable_bounded [OF assms(1)] obtain xs where inv: "lru_inv s xs"
    by (auto simp: bounded_def)
  from c obtain r where r: "entries s key = Some r"
    by (auto simp: Contains_def split: option.splits)
  from lru_lookup [OF inv r] obtain ys a zs where
    x: "xs = ys @ a # zs" "r = Ptr a" "keyf (evictList s) a = key" by metis
  from lru_Get_hit [of s ys a zs key] inv x r obtain s' where
    get: "Get key s = Some (Some (valf (evictList s) a), s')" and inv': "lru_inv s' (a # ys @ zs)"
    and fr: "keyf (evictList s') = keyf (evictList s)"
      "valf (evictList s') = valf (evictList s)"
      "size_lru s' = size_lru s" "entries s' = entries s"
    by auto
  have inj: "inj_on (keyf (evictList s)) (set (ys @ a # zs))"
    using inv x index_ok_inj [of "entries s" "evictList s" xs] by (simp add: lru_inv_def)
  have d: "distinct (ys @ a # zs)"
    using inv x ring_distinct [of "evictList s" xs] by (simp add: lru_inv_def)
  let ?ks = "map (\<lambda>b. Some (keyf (evictList s) b)) (rev xs)"
  have ks': "Keys s' = Some (map (\<lambda>b. Some (keyf (evictList s) b)) (rev zs @ rev ys) @ [Some key])"
    unfolding lru_Keys [OF inv'] fr using x(3) by simp
  have ks: "Keys s' = Some (filter (\<lambda>k. k \<noteq> Some key) ?ks @ [Some key])"
    unfolding ks' x(1) x(3) [symmetric] filter_moved [OF inj d] ..
  have lst: "last ?ks = Some key \<longleftrightarrow> ys = []"
  proof (cases ys)
    case Nil
    then show ?thesis using x by simp
  next
    case (Cons y ys')
    then have "keyf (evictList s) y \<noteq> keyf (evictList s) a" using inj d by (auto simp: inj_on_def)
    then show ?thesis using Cons x by simp
  qed
  have "Keys s' = Keys s \<longleftrightarrow> ys = []"
    unfolding ks' lru_Keys [OF inv] x(1) x(3) [symmetric] option.inject
    by (rule filter_moved_iff [OF inj d])
  then have same: "Keys s' = Keys s \<longleftrightarrow> last ?ks = Some key"
    using lst by simp
  have pk: "Peek key s = Some (Some (valf (evictList s) a))"
    unfolding lru_Peek [OF inv] using r x by (simp add: addr_of_def)
  have "\<forall>k. Peek k s' = Peek k s"
    unfolding lru_Peek [OF inv'] lru_Peek [OF inv] fr by simp
  moreover have "Len s' = Len s" using lru_Len [OF inv'] lru_Len [OF inv] x by simp
  moreover have "\<forall>k. Contains k s' = Contains k s" using fr by (simp add: Contains_def)
  ultimately show "\<exists>v s' ks. Get key s = Some (Some v, s') \<and> Peek key s = Some (Some v) \<and>
              Keys s = Some ks \<and>
              Keys s' = Some (filter (\<lambda>k. k \<noteq> Some key) ks @ [Some key]) \<and>
              (Keys s' = Keys s \<longleftrightarrow> last ks = Some key) \<and>
              Len s' = Len s \<and> Cap s' = Cap s \<and>
              (\<forall>k. Peek k s' = Peek k s \<and> Contains k s' = Contains k s)"
    using get ks same pk lru_Keys [OF inv] fr by (auto simp: Cap_def)
next
  assume "\<not> Contains key s"
  then have "entries s key = None" by (auto simp: Contains_def split: option.splits)
  then show "Get key s = Some (None, s)" "Peek key s = Some None"
    by (simp_all add: Get_def Peek_def)
qed

theorem C4_Get_moves_to_front_witness:
  "reachable ex2 \<and> Contains 1 ex2 \<and> \<not> Contains 3 ex2 \<and>
   (\<exists>s'. Get 1 ex2 = Some (Some 10, s') \<and> Peek 1 ex2 = Some (Some 10) \<and>
         Keys ex2 = Some [Some 1, Some 2] \<and> Keys s' = Some [Some 2, Some 1]) \<and>
   Get 3 ex2 = Some (None, ex2) \<and> Peek 3 ex2 = Some None"
proof -
  have c: "Contains 1 ex2" "\<not> Contains 3 ex2"
    by (simp_all add: ex2_def ex1_def ex0_def lru_defs list_defs heap_defs Let_def)
  have k: "Keys ex2 = Some [Some 1, Some 2]"
    by (simp add: ex2_def ex1_def ex0_def lru_defs list_defs heap_defs Let_def eval_nat_numeral)
  have p: "Peek 1 ex2 = Some (Some 10)"
    by (simp add: ex2_def ex1_def ex0_def lru_defs list_defs heap_defs Let_def)
  from C4_Get_moves_to_front [OF reachable_ex2, of 1] C4_Get_moves_to_front [OF reachable_ex2, of 3]
    c k p
  show ?thesis using reachable_ex2 by auto
qed

text \<open>
  The claim as stated (a hit always changes the eviction order) fails where the key is
  already at the front: in the cache that holds the single key 1, \<open>Get\<close> of 1 is a hit
  and returns the very same state.
\<close>

theorem C4_Get_front_counterexample:
  "Contains 1 ex1 \<and> Get 1 ex1 = Some (Some 10, ex1) \<and> Keys ex1 = Some [Some 1]"
  by (simp add: ex1_def ex0_def lru_defs list_defs heap_defs Let_def)

section \<open>Resize\<close>

text \<open>
  \<open>Resize\<close> for a size that is not negative. In every reachable state of the basic
  cache and for every new size \<open>n \<ge> 0\<close>, \<open>Resize n\<close> returns \<open>max 0 (Len - n)\<close>,
  evicts exactly that many entries, the oldest ones, calling the callback for them from
  the oldest on, keeps the others in their order, and sets the capacity to \<open>n\<close>. In
  particular, for \<open>n \<ge> Len\<close> it evicts nothing and returns 0.
\<close>

lemma Resize_nonneg:
  assumes "reachable s" and "0 \<le> n"
  shows "\<exists>s' kvs.
           Keys s = Some (map (\<lambda>kv. Some (fst kv)) kvs) \<and>
           Values s = Some (map (\<lambda>kv. Some (snd kv)) kvs) \<and>
           Resize n s w =
             Some (max 0 (Len s - n), s',
                   fold (\<lambda>kv. cb_apply (onEvict s) (fst kv) (snd kv)) (take (nat (Len s - n)) kvs) w) \<and>
           Keys s' = Some (map (\<lambda>kv. Some (fst kv)) (drop (nat (Len s - n)) kvs)) \<and>
           Values s' = Some (map (\<lambda>kv. Some (snd kv)) (drop (nat (Len s - n)) kvs)) \<and>
           Len s' = Len s - max 0 (Len s - n) \<and> Cap s' = n \<and>
           (Len s \<le> n \<longrightarrow> Resize n s w = Some (0, s', w) \<and> Keys s' = Keys s \<and> Values s' = Values s)"
proof -
  from reachable_holds [OF assms(1)] obtain kvs where h: "holds s kvs" ..
  have len: "Len s = int (length kvs)" by (rule holds_Len [OF h])
  have m: "nat (Len s - n) = length kvs - nat n" using len assms(2) by simp
  from holds_Resize [OF h assms(2), of w] obtain s' where
    run: "Resize n s w =
            Some (max 0 (int (length kvs) - n), s',
                  fold (\<lambda>kv. cb_apply (onEvict s) (fst kv) (snd kv))
                    (take (length kvs - nat n) kvs) w)"
    and h': "holds s' (drop (length kvs - nat n) kvs)" and sz: "size_lru s' = n"
    by blast
  have "Len s' = Len s - max 0 (Len s - n)"
    using holds_Len [OF h'] len assms(2) by auto
  then show ?thesis
    using run holds_Keys [OF h] holds_Values [OF h] holds_Keys [OF h'] holds_Values [OF h'] sz
    unfolding len [symmetric] m [symmetric]
    by (intro exI [of _ s'] exI [of _ kvs]) (auto simp: Cap_def)
qed

lemma Resize_nonneg_example:
  "reachable ex2 \<and> (0::int) \<le> 1 \<and> (0::int) \<le> 5 \<and> Len ex2 = 2 \<and>
   Keys ex2 = Some [Some 1, Some 2] \<and>
   (\<exists>s'. Resize 1 ex2 [] = Some (1, s', [(1, 10)]) \<and> Keys s' = Some [Some 2] \<and> Len s' = 1) \<and>
   (\<exists>s'. Resize 5 ex2 [] = Some (0, s', []) \<and> Keys s' = Some [Some 1, Some 2] \<and> Len s' = 2)"
proof -
  have k: "Keys ex2 = Some [Some 1, Some 2]"
    by (simp add: ex2_def ex1_def ex0_def lru_defs list_defs heap_defs Let_def eval_nat_numeral)
  have v: "Values ex2 = Some [Some 10, Some 20]"
    by (simp add: ex2_def ex1_def ex0_def lru_defs list_defs heap_defs Let_def eval_nat_numeral)
  have l: "Len ex2 = 2"
    by (simp add: ex2_def ex1_def ex0_def lru_defs list_defs heap_defs Let_def)
  have cb: "onEvict ex2 = Some log_evict"
    by (simp add: ex2_def ex1_def ex0_def lru_defs list_defs heap_defs Let_def)
  have z: "\<And>kvs. map (\<lambda>kv. Some (fst kv)) kvs = [Some 1, Some 2] \<Longrightarrow>
             map (\<lambda>kv. Some (snd kv)) kvs = [Some 10, Some 20] \<Longrightarrow> kvs = [(1::nat, 10::nat), (2, 20)]"
    by (auto simp: map_eq_Cons_conv)
  from Resize_nonneg [OF reachable_ex2, of 1 "[]"] Resize_nonneg [OF reachable_ex2, of 5 "[]"] k v l cb z
  show ?thesis using reachable_ex2
    by (auto simp: cb_apply_def log_evict_def)
qed

text \<open>
  C6. \<open>Resize\<close> is documented as ``returning number of evicted entries'', and for
  \<open>N < Len\<close> that number is to be \<open>Len - N\<close>. The code takes any \<open>int\<close> and, unlike
  \<open>NewLRU\<close> and the \<open>Resize\<close> of the expirable cache, has no guard for a size below 0.
  On the cache of capacity 2 that holds the one entry \<open>(1, 10)\<close>, \<open>Resize (-1)\<close> returns
  2 although it evicts one entry only (one call of the callback, and \<open>Len\<close> goes from
  1 to 0): the loop calls \<open>removeOldest\<close> twice, and the second call finds the list
  empty. The capacity is left at \<open>-1\<close>.
\<close>

theorem C6_Resize_negative_size:
  "reachable ex1 \<and> Len ex1 = 1 \<and> Keys ex1 = Some [Some 1] \<and>
   (\<exists>s'. Resize (- 1) ex1 [] = Some (2, s', [(1, 10)]) \<and> Len s' = 0 \<and> Cap s' = - 1)"
proof -
  have "Len ex1 = 1" "Keys ex1 = Some [Some 1]"
    by (simp_all add: ex1_def ex0_def lru_defs list_defs heap_defs Let_def)
  moreover have "\<exists>s'. Resize (- 1) ex1 [] = Some (2, s', [(1, 10)]) \<and> Len s' = 0 \<and> Cap s' = - 1"
    by (simp add: ex1_def ex0_def lru_defs list_defs heap_defs Let_def log_evict_def
          resize_loop.simps [of 0 2] resize_loop.simps [of 1 2] resize_loop.simps [of 2 2])
  ultimately show ?thesis using reachable_ex1 by simp
qed

section \<open>Lookups of an expired entry\<close>

text \<open>
  C5. In any state of the expirable cache, if the index holds an entry for the key and
  that entry's \<open>ExpiresAt\<close> lies strictly before the time \<open>now\<close> of the call, then
  \<open>Get\<close> and \<open>Peek\<close> return not-found, and \<open>Get\<close> returns the state it was given:
  list, index and buckets are exactly as before, and the key is still in the index.
\<close>

theorem C5_expired_lookup_is_lazy:
  assumes "x_entries s key = Some e" and "get_ExpiresAt (x_evictList s) e = Some exp"
    and "exp < now"
  shows "x_Get key now s = Some (None, s) \<and> x_Peek key now s = Some None \<and> x_Contains key s"
  using assms by (simp add: x_Get_def x_Peek_def x_Contains_def)

theorem C5_expired_lookup_is_lazy_witness:
  "x_reachable xe1 \<and> x_entries xe1 1 = Some (Ptr 0) \<and>
   get_ExpiresAt (x_evictList xe1) (Ptr 0) = Some 10 \<and> (10::int) < 11 \<and>
   x_Get 1 11 xe1 = Some (None, xe1) \<and> x_Peek 1 11 xe1 = Some None \<and> x_Contains 1 xe1 \<and>
   x_Get 1 10 xe1 \<noteq> Some (None, xe1) \<and> x_Peek 1 10 xe1 = Some (Some 10)"
proof -
  have live: "x_Get 1 10 xe1 \<noteq> Some (None, xe1)" "x_Peek 1 10 xe1 = Some (Some 10)"
    by (simp_all add: xe1_def xe0_def x_defs list_defs heap_defs Let_def)
  have lt: "(10::int) < 11" by simp
  from C5_expired_lookup_is_lazy [OF xe1_facts(1) xe1_facts(2) lt]
  show ?thesis using x_reachable_xe1 xe1_facts live by simp
qed

section \<open>Operations that do not look at the expiry time\<close>

text \<open>
  C10. \<open>Contains\<close>, \<open>GetOldest\<close> and \<open>Len\<close> of the expirable cache do not read the
  clock (they take no time argument). In every reachable state in which the index holds
  an entry for the key whose \<open>ExpiresAt\<close> lies strictly before \<open>now\<close>: \<open>Get\<close> at
  \<open>now\<close> reports not-found, while \<open>Contains\<close> is true, \<open>Len\<close> is the number of keys
  in the index (so it counts the expired one), \<open>GetOldest\<close> reports an entry, and it
  reports this very key with its value when the expired entry is the one at the back.
\<close>

theorem C10_no_expiry_check:
  assumes "x_reachable s" and "x_entries s key = Some e"
    and "get_ExpiresAt (x_evictList s) e = Some exp" and "exp < now"
  shows "x_Get key now s = Some (None, s) \<and> x_Contains key s \<and>
         x_Len s = int (card (dom (x_entries s))) \<and> 1 \<le> x_Len s \<and>
         (\<exists>kv. x_GetOldest s = Some (Some kv)) \<and>
         (Back (x_evictList s) = e \<longrightarrow>
            (\<exists>v. get_Value (x_evictList s) e = Some v \<and> x_GetOldest s = Some (Some (key, v))))"
proof -
  from x_reachable_inv [OF assms(1)] obtain xs where inv: "x_inv s xs" ..
  from x_lookup [OF inv assms(2)] obtain ys a zs where
    x: "xs = ys @ a # zs" "e = Ptr a" "keyf (x_evictList s) a = key" by metis
  have va: "valid (x_evictList s) (Ptr a)" using inv x by (auto simp: x_inv_def ring_valid)
  have g: "x_Get key now s = Some (None, s)" "x_Contains key s"
    using assms(2,3,4) by (simp_all add: x_Get_def x_Contains_def)
  have len: "x_Len s = int (card (dom (x_entries s)))" by (rule x_Len_card [OF inv])
  have l1: "1 \<le> x_Len s" using x_Len [OF inv] x by simp
  have go: "\<exists>kv. x_GetOldest s = Some (Some kv)"
    using x_GetOldest_run [OF inv] x by simp
  have "Back (x_evictList s) = e \<longrightarrow>
            (\<exists>v. get_Value (x_evictList s) e = Some v \<and> x_GetOldest s = Some (Some (key, v)))"
    using x va by (auto simp: x_GetOldest_def Let_def)
  then show ?thesis using g len l1 go by blast
qed

theorem C10_no_expiry_check_witness:
  "x_reachable xe1 \<and> x_entries xe1 1 = Some (Ptr 0) \<and>
   get_ExpiresAt (x_evictList xe1) (Ptr 0) = Some 10 \<and> (10::int) < 11 \<and>
   Back (x_evictList xe1) = Ptr 0 \<and>
   x_Get 1 11 xe1 = Some (None, xe1) \<and> x_Contains 1 xe1 \<and> x_Len xe1 = 1 \<and>
   x_GetOldest xe1 = Some (Some (1, 10))"
proof -
  have lt: "(10::int) < 11" by simp
  have v: "get_Value (x_evictList xe1) (Ptr 0) = Some 10"
    by (simp add: xe1_def xe0_def x_defs list_defs heap_defs Let_def)
  from C10_no_expiry_check [OF x_reachable_xe1 xe1_facts(1) xe1_facts(2) lt]
  show ?thesis using x_reachable_xe1 xe1_facts v by simp
qed

section \<open>Purge\<close>

text \<open>
  C7. Basic cache: in every reachable state, for every order \<open>ks\<close> in which the range
  over the index may yield its keys (each key once), \<open>Purge\<close> runs through, calls the
  callback once for each key of \<open>ks\<close>, in that order, with the value the key had, and
  leaves the cache empty: \<open>Len\<close> is 0 and \<open>Keys\<close> is empty. A further \<open>Purge\<close> has no
  key to range over, calls no callback and returns the same state. Expirable cache: the
  same, for every order of the index and of each bucket; \<open>Keys\<close> is empty at any time.
\<close>

theorem C7_Purge:
  "(reachable s \<and> range_order (entries s) ks \<longrightarrow>
      (\<exists>s' vf. (\<forall>k \<in> set ks. Peek k s = Some (Some (vf k))) \<and>
         Purge ks s w = Some (s', fold (\<lambda>k. cb_apply (onEvict s) k (vf k)) ks w) \<and>
         Len s' = 0 \<and> Keys s' = Some [] \<and>
         (\<forall>ks' w'. range_order (entries s') ks' \<longrightarrow> Purge ks' s' w' = Some (s', w')))) \<and>
   (x_reachable t \<and> range_order (x_entries t) kt \<and>
    list_all2 (\<lambda>b ks. range_order (b_entries b) ks) (x_buckets t) bks \<longrightarrow>
      (\<exists>t' vf. (\<forall>k \<in> set kt. \<exists>e. x_entries t k = Some e \<and>
                                   get_Value (x_evictList t) e = Some (vf k)) \<and>
         x_Purge kt bks t wt = Some (t', fold (\<lambda>k. cb_apply (x_onEvict t) k (vf k)) kt wt) \<and>
         x_Len t' = 0 \<and> x_Keys now t' = Some [] \<and>
         (\<forall>ks' bks' w'. range_order (x_entries t') ks' \<and>
            list_all2 (\<lambda>b ks. range_order (b_entries b) ks) (x_buckets t') bks' \<longrightarrow>
            x_Purge ks' bks' t' w' = Some (t', w'))))"
proof (intro conjI impI)
  assume a: "reachable s \<and> range_order (entries s) ks"
  from reachable_bounded [of s] a obtain xs where inv: "lru_inv s xs"
    by (auto simp: bounded_def)
  let ?vf = "\<lambda>k. valf (evictList s) (addr_of (entries s) k)"
  from lru_Purge [OF inv, of ks w] a obtain s' where
    p: "Purge ks s w = Some (s', fold (\<lambda>k. cb_apply (onEvict s) k (?vf k)) ks w)"
    and inv': "lru_inv s' []" and e: "entries s' = Map.empty"
    by blast
  have pk: "\<forall>k \<in> set ks. Peek k s = Some (Some (?vf k))"
    using a lru_Peek [OF inv] by (auto simp: range_order_def dom_def)
  have l: "Len s' = 0" using lru_Len [OF inv'] by simp
  have k: "Keys s' = Some []" using lru_Keys [OF inv'] by simp
  have i: "list_Init (evictList s') = evictList s'"
    using inv' by (simp add: lru_inv_def ring_Nil_Init)
  have again: "\<forall>ks' w'. range_order (entries s') ks' \<longrightarrow> Purge ks' s' w' = Some (s', w')"
    using e i by (simp add: range_order_empty Purge_def)
  show "\<exists>s' vf. (\<forall>k \<in> set ks. Peek k s = Some (Some (vf k))) \<and>
         Purge ks s w = Some (s', fold (\<lambda>k. cb_apply (onEvict s) k (vf k)) ks w) \<and>
         Len s' = 0 \<and> Keys s' = Some [] \<and>
         (\<forall>ks' w'. range_order (entries s') ks' \<longrightarrow> Purge ks' s' w' = Some (s', w'))"
    by (intro exI [of _ s'] exI [of _ ?vf] conjI) (rule pk p l k again)+
next
  assume a: "x_reachable t \<and> range_order (x_entries t) kt \<and>
    list_all2 (\<lambda>b ks. range_order (b_entries b) ks) (x_buckets t) bks"
  from x_reachable_inv [of t] a obtain xs where inv: "x_inv t xs" by auto
  let ?vf = "\<lambda>k. valf (x_evictList t) (addr_of (x_entries t) k)"
  from x_Purge_run [OF inv, of kt bks wt] a obtain t' where
    p: "x_Purge kt bks t wt = Some (t', fold (\<lambda>k. cb_apply (x_onEvict t) k (?vf k)) kt wt)"
    and inv': "x_inv t' []" and e: "x_entries t' = Map.empty"
    and be: "\<forall>b \<in> set (x_buckets t'). b_entries b = Map.empty"
    by blast
  have pk: "\<forall>k \<in> set kt. \<exists>e. x_entries t k = Some e \<and> get_Value (x_evictList t) e = Some (?vf k)"
    using a x_Peek_value [OF inv] by (auto simp: range_order_def)
  have l: "x_Len t' = 0" using x_Len [OF inv'] by simp
  have bk: "Back (x_evictList t') = Null" using x_Back [OF inv'] by simp
  have k: "x_Keys now t' = Some []" using bk by (simp add: x_Keys_def x_keys_loop.simps)
  have i: "list_Init (x_evictList t') = x_evictList t'"
    using inv' by (simp add: x_inv_def ring_Nil_Init)
  have again: "x_Purge ks' bks' t' w' = Some (t', w')"
    if o: "range_order (x_entries t') ks' \<and>
           list_all2 (\<lambda>b ks. range_order (b_entries b) ks) (x_buckets t') bks'" for ks' bks' w'
  proof -
    have ks': "ks' = []" using o e by (simp add: range_order_empty)
    have bv: "\<forall>b \<in> set (x_buckets t'). \<forall>k r. b_entries b k = Some r \<longrightarrow>
        (\<exists>a. r = Ptr a \<and> valid (x_evictList t') (Ptr a) \<and> keyf (x_evictList t') a = k)"
      using be by simp
    have "map (\<lambda>b. b\<lparr>b_entries := Map.empty\<rparr>) (x_buckets t') = x_buckets t'"
      using be by (intro map_idI) simp
    then have "purge_buckets (x_evictList t') bks' (x_buckets t') = Some (x_buckets t')"
      using purge_buckets_run [OF conjunct2 [OF o] bv] by simp
    then show ?thesis using ks' i by (simp add: x_Purge_def)
  qed
  show "\<exists>t' vf. (\<forall>k \<in> set kt. \<exists>e. x_entries t k = Some e \<and>
                                   get_Value (x_evictList t) e = Some (vf k)) \<and>
         x_Purge kt bks t wt = Some (t', fold (\<lambda>k. cb_apply (x_onEvict t) k (vf k)) kt wt) \<and>
         x_Len t' = 0 \<and> x_Keys now t' = Some [] \<and>
         (\<forall>ks' bks' w'. range_order (x_entries t') ks' \<and>
            list_all2 (\<lambda>b ks. range_order (b_entries b) ks) (x_buckets t') bks' \<longrightarrow>
            x_Purge ks' bks' t' w' = Some (t', w'))"
    by (intro exI [of _ t'] exI [of _ ?vf] conjI allI impI) (rule pk p l k again | assumption)+
qed

theorem C7_Purge_witness:
  "reachable ex2 \<and> range_order (entries ex2) [2, 1] \<and>
   x_reachable xe1 \<and> range_order (x_entries xe1) [1] \<and>
   list_all2 (\<lambda>b ks. range_order (b_entries b) ks) (x_buckets xe1) ((replicate 100 [])[0 := [1]]) \<and>
   (\<exists>s'. Purge [2, 1] ex2 [] = Some (s', [(2, 20), (1, 10)]) \<and> Len s' = 0 \<and> Keys s' = Some [] \<and>
         range_order (entries s') [] \<and> Purge [] s' [(2, 20), (1, 10)] = Some (s', [(2, 20), (1, 10)])) \<and>
   (\<exists>t'. x_Purge [1] ((replicate 100 [])[0 := [1]]) xe1 [] = Some (t', [(1, 10)]) \<and>
         x_Len t' = 0 \<and> x_Keys 0 t' = Some [])"
proof -
  have pk: "Peek 2 ex2 = Some (Some 20)" "Peek 1 ex2 = Some (Some 10)"
    "onEvict ex2 = Some log_evict"
    by (simp_all add: ex2_def ex1_def ex0_def lru_defs list_defs heap_defs Let_def)
  have xv: "x_entries xe1 1 = Some (Ptr 0)" "get_Value (x_evictList xe1) (Ptr 0) = Some 10"
    "x_onEvict xe1 = Some log_evict"
    by (simp_all add: xe1_def xe0_def x_defs list_defs heap_defs Let_def)
  from C7_Purge [of ex2 "[2, 1]" "[]" xe1 "[1]" "(replicate 100 [])[0 := [1]]" "[]" 0]
    reachable_ex2 ex2_order x_reachable_xe1 xe1_orders
  obtain s' vf t' vg where
    b: "\<forall>k\<in>set [2, 1]. Peek k ex2 = Some (Some (vf k))"
       "Purge [2, 1] ex2 [] = Some (s', fold (\<lambda>k. cb_apply (onEvict ex2) k (vf k)) [2, 1] [])"
       "Len s' = 0" "Keys s' = Some []"
       "\<forall>ks' w'. range_order (entries s') ks' \<longrightarrow> Purge ks' s' w' = Some (s', w')"
    and x: "\<forall>k\<in>set [1]. \<exists>e. x_entries xe1 k = Some e \<and> get_Value (x_evictList xe1) e = Some (vg k)"
       "x_Purge [1] ((replicate 100 [])[0 := [1]]) xe1 [] =
          Some (t', fold (\<lambda>k. cb_apply (x_onEvict xe1) k (vg k)) [1] [])"
       "x_Len t' = 0" "x_Keys 0 t' = Some []"
    by blast
  have vf: "vf 2 = 20" "vf 1 = 10" using b(1) pk by auto
  have vg: "vg 1 = 10" using x(1) xv by auto
  have e: "range_order (entries s') []"
    using b(2) ex2_order lru_Purge [of ex2 _ "[2, 1]" "[]"] reachable_bounded [OF reachable_ex2]
    by (auto simp: bounded_def range_order_def)
  show ?thesis
    using reachable_ex2 ex2_order x_reachable_xe1 xe1_orders b x vf vg pk xv e
    by (auto simp: cb_apply_def log_evict_def)
qed

section \<open>The capacity bound\<close>

text \<open>
  C8. In every reachable state of the basic cache and of the expirable cache (reachable by
  the constructor, the public operations and, for the expirable cache, the sweep),
  \<open>Len\<close> is the number of keys in the index, and when the capacity is positive,
  \<open>Len\<close> does not exceed it. In particular the bound holds in the state that any
  \<open>Add\<close> returns.
\<close>

theorem C8_capacity_bound:
  "(reachable s \<longrightarrow> (0 < Cap s \<longrightarrow> Len s \<le> Cap s) \<and> Len s = int (card (dom (entries s)))) \<and>
   (reachable s \<and> Add key val s w = Some (ev, s', w') \<and> 0 < Cap s' \<longrightarrow> Len s' \<le> Cap s') \<and>
   (x_reachable t \<longrightarrow> (0 < x_Cap t \<longrightarrow> x_Len t \<le> x_Cap t) \<and>
      x_Len t = int (card (dom (x_entries t)))) \<and>
   (x_reachable t \<and> x_Add kt vt now t wt = Some (evt, t', wt') \<and> 0 < x_Cap t' \<longrightarrow>
      x_Len t' \<le> x_Cap t')"
proof -
  have b: "(0 < Cap s \<longrightarrow> Len s \<le> Cap s) \<and> Len s = int (card (dom (entries s)))"
    if "reachable s" for s :: "('k, 'v, 'w) LRU"
  proof -
    from reachable_bounded [OF that] obtain xs where "bounded s xs" ..
    then show ?thesis using lru_Len [of s xs] lru_Len_card [of s xs]
      by (auto simp: bounded_def Cap_def)
  qed
  have x: "(0 < x_Cap t \<longrightarrow> x_Len t \<le> x_Cap t) \<and> x_Len t = int (card (dom (x_entries t)))"
    if "x_reachable t" for t :: "('k, 'v, 'w) ExpLRU"
  proof -
    from x_reachable_bounded [OF that] obtain xs where "x_bounded t xs" ..
    then show ?thesis using x_Len [of t xs] x_Len_card [of t xs]
      by (auto simp: x_bounded_def x_Cap_def)
  qed
  show ?thesis
    using b [of s] b [of s'] x [of t] x [of t'] r_Add [of s key val w ev s' w']
      x_r_Add [of t kt vt now wt evt t' wt']
    by blast
qed

theorem C8_capacity_bound_witness:
  "reachable ex2 \<and> 0 < Cap ex2 \<and> Len ex2 = 2 \<and> Cap ex2 = 2 \<and>
   (\<exists>s'. Add 3 30 ex2 [] = Some (True, s', [(1, 10)]) \<and> 0 < Cap s' \<and> Len s' \<le> Cap s') \<and>
   x_reachable xe1 \<and> 0 < x_Cap xe1 \<and> x_Len xe1 = 1 \<and> x_Cap xe1 = 5 \<and>
   (\<exists>t'. x_Add 2 20 3 xe1 [] = Some (False, t', []) \<and> 0 < x_Cap t' \<and> x_Len t' \<le> x_Cap t')"
proof -
  have f: "Len ex2 = 2" "Cap ex2 = 2"
    by (simp_all add: ex2_def ex1_def ex0_def lru_defs list_defs heap_defs Let_def)
  have g: "x_Len xe1 = 1" "x_Cap xe1 = 5"
    by (simp_all add: xe1_def xe0_def x_defs list_defs heap_defs Let_def)
  have a: "\<exists>s'. Add 3 30 ex2 [] = Some (True, s', [(1, 10)]) \<and> Cap s' = 2"
    by (simp add: ex2_def ex1_def ex0_def lru_defs list_defs heap_defs Let_def log_evict_def)
  have xa: "\<exists>t'. x_Add 2 20 3 xe1 [] = Some (False, t', []) \<and> x_Cap t' = 5"
    by (simp add: xe1_def xe0_def x_defs list_defs heap_defs Let_def)
  from a obtain s' where s': "Add 3 30 ex2 [] = Some (True, s', [(1, 10)])" "Cap s' = 2" by blast
  from xa obtain t' where t': "x_Add 2 20 3 xe1 [] = Some (False, t', [])" "x_Cap t' = 5" by blast
  from C8_capacity_bound [of ex2 3 30 "[]" True s' "[(1, 10)]" xe1 2 20 3 "[]" False t' "[]"]
  show ?thesis using reachable_ex2 x_reachable_xe1 f g s' t' 
    by auto
qed

section \<open>The eviction buffers of the thread-safe cache\<close>

text \<open>
  C9. In every reachable state of the thread-safe cache (a constructor call that returned
  no error, then any public calls) both eviction buffers are empty, and from such a state
  each of \<open>Add\<close>, \<open>Get\<close>, \<open>ContainsOrAdd\<close>, \<open>PeekOrAdd\<close>, \<open>Remove\<close>,
  \<open>RemoveOldest\<close>, \<open>Purge\<close> (for every order of the range over the index) and
  \<open>Resize\<close> runs through, without an index panic on the buffers, and returns a cache
  whose buffers are empty again. The other public operations only read the wrapped cache.
\<close>

theorem C9_buffer_drained:
  assumes "c_reachable c"
  shows "drained c \<and>
     (\<exists>ev c' w'. Cache_Add key val c w = Some (ev, c', w') \<and> drained c') \<and>
     (\<exists>r c'. Cache_Get key c = Some (r, c') \<and> drained c') \<and>
     (\<exists>res c' w'. ContainsOrAdd key val c w = Some (res, c', w') \<and> drained c') \<and>
     (\<exists>res c' w'. PeekOrAdd key val c w = Some (res, c', w') \<and> drained c') \<and>
     (\<exists>ok c' w'. Cache_Remove key c w = Some (ok, c', w') \<and> drained c') \<and>
     (\<exists>kv c' w'. Cache_RemoveOldest c w = Some (kv, c', w') \<and> drained c') \<and>
     (\<forall>l. lru c = Some l \<and> range_order (entries l) ks \<longrightarrow>
        (\<exists>c' w'. Cache_Purge ks c w = Some (c', w') \<and> drained c')) \<and>
     (\<exists>n c' w'. Cache_Resize sz c w = Some (n, c', w') \<and> drained c')"
proof -
  have inv: "c_inv c" using assms by (rule c_reachable_inv)
  have d: "drained c'" if "c_inv c'" for c' :: "('k, 'v, 'w) Cache"
    using that by (simp add: c_inv_def drained_def)
  have "drained c" using inv by (rule d)
  moreover have "\<exists>ev c' w'. Cache_Add key val c w = Some (ev, c', w') \<and> drained c'"
    using c_Add_run [OF inv, of key val w] d by blast
  moreover have "\<exists>r c'. Cache_Get key c = Some (r, c') \<and> drained c'"
    using c_Get_run [OF inv, of key] d by blast
  moreover have "\<exists>res c' w'. ContainsOrAdd key val c w = Some (res, c', w') \<and> drained c'"
    using c_ContainsOrAdd_run [OF inv, of key val w] d by blast
  moreover have "\<exists>res c' w'. PeekOrAdd key val c w = Some (res, c', w') \<and> drained c'"
    using c_PeekOrAdd_run [OF inv, of key val w] d by blast
  moreover have "\<exists>ok c' w'. Cache_Remove key c w = Some (ok, c', w') \<and> drained c'"
    using c_Remove_run [OF inv, of key w] d by blast
  moreover have "\<exists>kv c' w'. Cache_RemoveOldest c w = Some (kv, c', w') \<and> drained c'"
    using c_RemoveOldest_run [OF inv, of w] d by blast
  moreover have "\<forall>l. lru c = Some l \<and> range_order (entries l) ks \<longrightarrow>
        (\<exists>c' w'. Cache_Purge ks c w = Some (c', w') \<and> drained c')"
    using c_Purge_run [OF inv, of _ ks w] d by blast
  moreover have "\<exists>n c' w'. Cache_Resize sz c w = Some (n, c', w') \<and> drained c'"
    using c_Resize_run [OF inv, of sz w] d by blast
  ultimately show ?thesis by blast
qed

theorem C9_buffer_drained_witness:
  "c_reachable cx2 \<and> drained cx2 \<and> (\<exists>l. lru cx2 = Some l \<and> range_order (entries l) [2, 1]) \<and>
   (\<exists>c'. Cache_Add 3 30 cx2 [] = Some (True, c', [(1, 10)]) \<and> drained c') \<and>
   (\<exists>c'. Cache_Purge [2, 1] cx2 [] = Some (c', [(2, 20), (1, 10)]) \<and> drained c') \<and>
   (\<exists>c'. Cache_Resize 1 cx2 [] = Some (1, c', [(1, 10)]) \<and> drained c')"
proof -
  have a: "\<exists>c'. Cache_Add 3 30 cx2 [] = Some (True, c', [(1, 10)])"
    by (simp add: cx2_def cx1_def cx0_def cache_defs lru_defs list_defs heap_defs Let_def
          log_evict_def)
  have p: "\<exists>c'. Cache_Purge [2, 1] cx2 [] = Some (c', [(2, 20), (1, 10)])"
    by (simp add: cx2_def cx1_def cx0_def cache_defs lru_defs list_defs heap_defs Let_def
          log_evict_def)
  have r: "\<exists>c'. Cache_Resize 1 cx2 [] = Some (1, c', [(1, 10)])"
    by (simp add: cx2_def cx1_def cx0_def cache_defs lru_defs list_defs heap_defs Let_def
          log_evict_def resize_loop.simps [of 0 1] resize_loop.simps [of 1 1])
  from C9_buffer_drained [OF c_reachable_cx2, of 3 30 "[]" "[2, 1]" 1] a p r cx2_order
  show ?thesis using c_reachable_cx2 by auto
qed

end
